theory Spec2Isabelle
  imports Main "HOL-Library.Sublist"
begin

section \<open>The resolver of pkgcore/graph/resolver.py\<close>

subsection \<open>Data model\<close>

text \<open>
  Modelled from the spec: the atom class (pkgcore.package.atom) is not part of the
  sources at hand. The resolver reads two attributes of an atom, \<open>key\<close> and
  \<open>blocks\<close>, and uses atoms as dictionary keys; equality is structural. The
  restriction of an atom (\<open>a.match(pkg)\<close>) is a parameter, see \<open>atom_match\<close> below.
\<close>

datatype atom = Atom (atom_name: string) (key: string) (blocks: bool)

text \<open>
  What the generator hands to its caller: the missing atom itself (line 116), or the
  restriction of line 91,
  \<^verbatim>\<open>AndRestriction(current_atom, PackageRestriction("depends", v),
      PackageRestriction("rdepends", v))\<close> with \<^verbatim>\<open>v = ContainmentMatch(a, negate=True)\<close>.
  \<open>AndRestriction m a\<close> keeps its two ingredients: the atom asked for and the atom that
  neither dependency list may contain.
\<close>

datatype yielded = NeedAtom atom | AndRestriction atom atom

text \<open>
  The exceptions the code can raise. \<open>NoSolution\<close> carries the atom and the reason that
  line 162 formats into its message.
\<close>

datatype exn =
    AssertionError
  | IndexError
  | KeyError
  | NameError
  | TypeError
  | UnboundLocalError
  | NoSolution atom string

text \<open>
  The class choice_point (pkgcore.graph.choice_point) is not part of the sources at hand
  either; the resolver is modelled for every implementation of it. \<open>'c\<close> is the state of
  one choice point object, \<open>'p\<close> a package. The record lists what the resolver calls:
  the constructor \<^verbatim>\<open>choice_point(atom, matches)\<close>, truth value, the attributes
  \<^verbatim>\<open>atom\<close>, \<^verbatim>\<open>current_pkg\<close>, \<^verbatim>\<open>depends\<close>, \<^verbatim>\<open>rdepends\<close>, and
  \<^verbatim>\<open>reduce_atoms(atom)\<close>, which mutates the object (the second component of the
  result) and either returns the pair (released atoms, released provides) or raises
  IndexError (first component \<open>None\<close>), the exception that line 168 catches.
  The attributes are total, as the spec describes them (ordered sequences of atoms, a
  current package). \<open>atom_match a p\<close> is \<^verbatim>\<open>a.match(p)\<close>.
\<close>

record ('c, 'p) cp_ops =
  cp_new :: "atom \<Rightarrow> 'p list \<Rightarrow> 'c"
  cp_nonzero :: "'c \<Rightarrow> bool"
  cp_atom :: "'c \<Rightarrow> atom"
  cp_current_pkg :: "'c \<Rightarrow> 'p"
  cp_depends :: "'c \<Rightarrow> atom list"
  cp_rdepends :: "'c \<Rightarrow> atom list"
  cp_reduce_atoms :: "'c \<Rightarrow> atom \<Rightarrow> (atom list \<times> string list) option \<times> 'c"
  atom_match :: "atom \<Rightarrow> 'p \<Rightarrow> bool"

text \<open>
  The resolver object. Choice points are mutable objects shared between \<open>atoms\<close> and
  \<open>pkg_atoms\<close>, so they live in a store \<open>cps\<close> (address = position) and both
  dictionaries hold addresses. \<open>current_stack\<close> is an alias of one of the lists in
  \<open>search_stacks\<close>: it is the position of that list, or \<open>None\<close> for Python's None.
  An entry of \<open>atoms\<close> is the two-element list [choice point, referencing stacks].
\<close>

record 'c resolver =
  search_stacks :: "atom list list"
  current_stack :: "nat option"
  current_atom :: "atom option"
  false_atoms :: "atom set"
  atoms :: "atom \<rightharpoonup> (nat \<times> atom list list)"
  pkg_atoms :: "string \<rightharpoonup> nat list"
  cps :: "'c list"

type_synonym 'c result = "exn \<times> 'c resolver + 'c resolver"

text \<open>The resolver a call leaves behind, whether it returned or raised.\<close>

fun final :: "'c result \<Rightarrow> 'c resolver" where
  "final (Inl (e, s)) = s"
| "final (Inr s) = s"

subsection \<open>Construction and roots\<close>

text \<open>\<^verbatim>\<open>self.current_stack = self.search_stacks[-1]\<close>\<close>

definition grab_next_stack :: "'c resolver \<Rightarrow> 'c result" where
  "grab_next_stack s =
     (if search_stacks s = [] then Inl (IndexError, s)
      else Inr (s\<lparr>current_stack := Some (length (search_stacks s) - 1)\<rparr>))"

text \<open>\<^verbatim>\<open>__init__\<close>: one empty stack, which is current.\<close>

definition init :: "'c resolver" where
  "init = \<lparr>search_stacks = [[]], current_stack = Some 0, current_atom = None,
           false_atoms = {}, atoms = Map.empty, pkg_atoms = Map.empty, cps = []\<rparr>"

subsection \<open>Reference bookkeeping\<close>

definition ref_stack_for_atom :: "atom \<Rightarrow> atom list \<Rightarrow> 'c resolver \<Rightarrow> 'c result" where
  "ref_stack_for_atom a stack s =
     (case atoms s a of
        None \<Rightarrow> Inl (AssertionError, s)
      | Some (c, refs) \<Rightarrow>
          if stack \<in> set refs then Inr s
          else Inr (s\<lparr>atoms := (atoms s)(a \<mapsto> (c, refs @ [stack]))\<rparr>))"

definition deref_stack_for_atom ::
  "('c, 'p) cp_ops \<Rightarrow> atom \<Rightarrow> atom list \<Rightarrow> 'c resolver \<Rightarrow> 'c result" where
  "deref_stack_for_atom ops a stack s =
     (case atoms s a of
        None \<Rightarrow> Inl (AssertionError, s)
      | Some (c, refs) \<Rightarrow>
          let l = filter (\<lambda>x. take (length stack) x \<noteq> stack) refs in
          if l \<noteq> [] then Inr (s\<lparr>atoms := (atoms s)(a \<mapsto> (c, l))\<rparr>)
          else
            let pk = (case pkg_atoms s (key a) of
                        None \<Rightarrow> pkg_atoms s
                      | Some xs \<Rightarrow>
                          let l2 = filter (\<lambda>i. a \<noteq> cp_atom ops (cps s ! i)) xs in
                          if l2 = [] then (pkg_atoms s)(key a := None)
                          else (pkg_atoms s)(key a \<mapsto> l2))
            in Inr (s\<lparr>pkg_atoms := pk, atoms := (atoms s)(a := None)\<rparr>))"

text \<open>
  \<^verbatim>\<open>add_root_atom\<close>: for a tracked atom the argument list of line 37 names \<^verbatim>\<open>h\<close>,
  which is neither a local, a module global nor a builtin, so evaluating it raises
  NameError before \<^verbatim>\<open>ref_stack_for_atom\<close> is entered.
\<close>

definition add_root_atom :: "atom \<Rightarrow> 'c resolver \<Rightarrow> 'c result" where
  "add_root_atom a s =
     (if atoms s a \<noteq> None then Inl (NameError, s)
      else grab_next_stack (s\<lparr>search_stacks := search_stacks s @ [[a]]\<rparr>))"

definition choice_point_is_complete :: "('c, 'p) cp_ops \<Rightarrow> 'c resolver \<Rightarrow> 'c \<Rightarrow> bool" where
  "choice_point_is_complete ops s c =
     (list_all (\<lambda>x. atoms s x \<noteq> None) (cp_depends ops c) \<and>
      list_all (\<lambda>x. atoms s x \<noteq> None) (cp_rdepends ops c))"

subsection \<open>The unsatisfiability protocol\<close>

text \<open>
  Lines 174 to 178: the generator expression tests \<^verbatim>\<open>x in self.atoms\<close> lazily, when
  the loop reaches \<open>x\<close>, so an atom released twice is dereferenced once if the first
  dereference deleted it.
\<close>

fun deref_released ::
  "('c, 'p) cp_ops \<Rightarrow> atom list \<Rightarrow> atom list \<Rightarrow> 'c resolver \<Rightarrow> 'c result" where
  "deref_released ops [] t s = Inr s"
| "deref_released ops (x # xs) t s =
     (if atoms s x = None then deref_released ops xs t s
      else (case deref_stack_for_atom ops x t s of
              Inl e \<Rightarrow> Inl e
            | Inr s' \<Rightarrow> deref_released ops xs t s'))"

text \<open>
  Lines 165 to 171, the try block on the parent's choice point \<open>c\<close> and the atom \<open>x\<close>
  on top of the referencing stack. The result is \<^verbatim>\<open>was_complete\<close>,
  \<^verbatim>\<open>released_atoms\<close> and the choice point object after the call of
  \<^verbatim>\<open>reduce_atoms\<close>; \<^verbatim>\<open>released_provides\<close> is never read.
\<close>

definition reduce_parent ::
  "('c, 'p) cp_ops \<Rightarrow> 'c resolver \<Rightarrow> 'c \<Rightarrow> atom \<Rightarrow> bool \<times> atom list \<times> 'c" where
  "reduce_parent ops s c x =
     (case cp_reduce_atoms ops c x of
        (None, c') \<Rightarrow> (False, [x], c')
      | (Some rel, c') \<Rightarrow> (choice_point_is_complete ops s c, fst rel, c'))"

text \<open>
  Lines 180 to 186, after the released atoms are dereferenced. The first component says
  whether \<^verbatim>\<open>istack.append([t])\<close> ran.
\<close>

definition after_release ::
  "('c, 'p) cp_ops \<Rightarrow> 'c \<Rightarrow> bool \<Rightarrow> atom list \<Rightarrow> 'c resolver \<Rightarrow> bool \<times> 'c resolver" where
  "after_release ops c' was_complete t s =
     (if \<not> cp_nonzero ops c' then (True, s)
      else if was_complete \<and> \<not> choice_point_is_complete ops s c'
      then (False, s\<lparr>search_stacks := search_stacks s @ [t]\<rparr>)
      else (False, s))"

text \<open>
  Lines 164 to 186, the work on one referencing stack. \<^verbatim>\<open>stack[-2]\<close> is evaluated
  outside the try block: a stack shorter than two raises IndexError, a parent without an
  entry raises KeyError. \<open>c'\<close> is the choice point object after \<^verbatim>\<open>reduce_atoms\<close>;
  lines 180 and 184 read that same object.
\<close>

definition unsat_step ::
  "('c, 'p) cp_ops \<Rightarrow> atom list \<Rightarrow> 'c resolver \<Rightarrow> exn \<times> 'c resolver + bool \<times> 'c resolver" where
  "unsat_step ops stack s =
     (if length stack < 2 then Inl (IndexError, s)
      else
        (case atoms s (stack ! (length stack - 2)) of
           None \<Rightarrow> Inl (KeyError, s)
         | Some (ci, rs) \<Rightarrow>
             (case reduce_parent ops s (cps s ! ci) (last stack) of
                (was_complete, released_atoms, c') \<Rightarrow>
                  (case deref_released ops released_atoms (butlast stack)
                          (s\<lparr>cps := (cps s)[ci := c']\<rparr>) of
                     Inl e \<Rightarrow> Inl e
                   | Inr s2 \<Rightarrow> Inr (after_release ops c' was_complete (butlast stack) s2)))))"

text \<open>
  Modelled from the spec: the class expandable_chain (pkgcore.util.iterables) is missing
  from the sources; the spec calls it an expandable work queue seeded with the atom's
  referencing stacks and processed in order. The loop of line 158 takes the head of the
  queue, and line 183 appends to its end. The queue starts as the list of referencing
  stacks that the entry holds when the loop begins: \<^verbatim>\<open>deref_stack_for_atom\<close> replaces
  that list and does not change it in place. \<open>bail\<close> is the local of line 156.
\<close>

function unsat_loop ::
  "('c, 'p) cp_ops \<Rightarrow> atom \<Rightarrow> string \<Rightarrow> atom list list \<Rightarrow> exn option \<Rightarrow> 'c resolver
     \<Rightarrow> exn \<times> 'c resolver + exn option \<times> 'c resolver" where
  "unsat_loop ops a msg [] bail s = Inr (bail, s)"
| "unsat_loop ops a msg (stack # q) bail s =
     (case unsat_step ops stack s of
        Inl e \<Rightarrow> Inl e
      | Inr r \<Rightarrow>
          unsat_loop ops a msg (if fst r then q @ [butlast stack] else q)
            (if stack = [] then Some (NoSolution a msg) else bail) (snd r))"
  by pat_completeness auto
termination
proof (relation "measure (\<lambda>(ops, a, msg, q, bail, s). sum_list (map (\<lambda>st. Suc (length st)) q))")
  show "wf (measure (\<lambda>(ops, a, msg, q, bail, s). sum_list (map (\<lambda>st. Suc (length st)) q)))"
    by simp
next
  fix ops :: "('c, 'p) cp_ops" and a msg stack q and bail :: "exn option"
    and s :: "'c resolver" and r
  assume "unsat_step ops stack s = Inr r"
  then have "2 \<le> length stack"
    by (cases "length stack < 2") (simp_all add: unsat_step_def)
  then show "((ops, a, msg, if fst r then q @ [butlast stack] else q,
               if stack = [] then Some (NoSolution a msg) else bail, snd r),
              ops, a, msg, stack # q, bail, s)
             \<in> measure (\<lambda>(ops, a, msg, q, bail, s). sum_list (map (\<lambda>st. Suc (length st)) q))"
    by (cases stack rule: rev_cases) auto
qed

definition unsatisfiable_atom ::
  "('c, 'p) cp_ops \<Rightarrow> atom \<Rightarrow> string \<Rightarrow> bool \<Rightarrow> 'c resolver \<Rightarrow> 'c result" where
  "unsatisfiable_atom ops a msg permenant s =
     (if current_atom s \<noteq> Some a then Inl (AssertionError, s)
      else
        let s1 = (if permenant then s\<lparr>false_atoms := insert a (false_atoms s)\<rparr> else s) in
        (case atoms s1 a of
           None \<Rightarrow> Inl (KeyError, s1)
         | Some (c, refs) \<Rightarrow>
             (case unsat_loop ops a msg refs None s1 of
                Inl e \<Rightarrow> Inl e
              | Inr (bail, s2) \<Rightarrow>
                  (case grab_next_stack s2 of
                     Inl e \<Rightarrow> Inl e
                   | Inr s3 \<Rightarrow>
                       (case bail of Some b \<Rightarrow> Inl (b, s3) | None \<Rightarrow> Inr s3)))))"

subsection \<open>Supplying candidates\<close>

text \<open>\<^verbatim>\<open>stack.pop(-1)\<close> on the stack at position \<open>i\<close>.\<close>

definition pop_stack :: "nat \<Rightarrow> 'c resolver \<Rightarrow> 'c result" where
  "pop_stack i s =
     (if search_stacks s ! i = [] then Inl (IndexError, s)
      else Inr (s\<lparr>search_stacks := (search_stacks s)[i := butlast (search_stacks s ! i)]\<rparr>))"

text \<open>
  Lines 130 to 132: a new choice point object for \<open>a\<close>, installed as the entry of
  \<open>a\<close> and appended under \<^verbatim>\<open>a.key\<close>
  (\<^verbatim>\<open>self.pkg_atoms.setdefault(atom.key, []).append(c)\<close>). The wrapper
  \<^verbatim>\<open>caching_iter\<close> around the candidates only caches what the sequence yields.
\<close>

definition install_choice_point ::
  "('c, 'p) cp_ops \<Rightarrow> atom \<Rightarrow> 'p list \<Rightarrow> 'c resolver \<Rightarrow> 'c resolver" where
  "install_choice_point ops a matches s =
     s\<lparr>cps := cps s @ [cp_new ops a matches],
       atoms := (atoms s)(a \<mapsto> (length (cps s), [])),
       pkg_atoms := (pkg_atoms s)(key a \<mapsto>
          (case pkg_atoms s (key a) of None \<Rightarrow> [] | Some xs \<Rightarrow> xs) @ [length (cps s)])\<rparr>"

text \<open>
  \<^verbatim>\<open>satisfy_atom\<close>. The assertion of line 129 subscripts \<open>current_stack\<close>: None
  raises TypeError, an empty stack IndexError. Line 138 calls the protocol with its
  defaults, \<^verbatim>\<open>msg="None supplied"\<close> and \<^verbatim>\<open>permenant=True\<close>.
\<close>

definition satisfy_atom ::
  "('c, 'p) cp_ops \<Rightarrow> atom \<Rightarrow> 'p list \<Rightarrow> 'c resolver \<Rightarrow> 'c result" where
  "satisfy_atom ops a matches s =
     (case current_stack s of
        None \<Rightarrow> Inl (TypeError, s)
      | Some i \<Rightarrow>
          if search_stacks s ! i = [] then Inl (IndexError, s)
          else if last (search_stacks s ! i) \<noteq> a then Inl (AssertionError, s)
          else
            (case ref_stack_for_atom a (search_stacks s ! i)
                    (install_choice_point ops a matches s) of
               Inl e \<Rightarrow> Inl e
             | Inr s2 \<Rightarrow>
                 if \<not> cp_nonzero ops (cp_new ops a matches) then
                   (case unsatisfiable_atom ops a ''None supplied'' True s2 of
                      Inl e \<Rightarrow> Inl e
                    | Inr s3 \<Rightarrow>
                        if current_stack s3 = Some i then pop_stack i s3 else Inr s3)
                 else Inr s2))"

subsection \<open>The traversal\<close>

text \<open>
  \<^verbatim>\<open>iterate_unresolved_atoms\<close> is a generator. One pass through the body of its while
  loop is \<open>iterate_step\<close>; its outcome says how the pass ended: at a yield (the
  generator is suspended and the caller gets the value), at the end of the body or a
  \<^verbatim>\<open>continue\<close> (the loop goes on with another pass), by leaving the loop (the
  generator is finished), or with an exception. The local \<^verbatim>\<open>t\<close> of the generator
  survives from pass to pass and is read in line 112, so every outcome carries it
  (\<open>None\<close>: not bound yet). The breakpoints (\<^verbatim>\<open>pdb.set_trace()\<close>) and the debug
  output have no effect on the resolver and are left out.
\<close>

datatype 'c outcome =
    Yield yielded "atom list option" "'c resolver"
  | Continue "atom list option" "'c resolver"
  | Return "atom list option" "'c resolver"
  | Raise exn "atom list option" "'c resolver"

fun outcome_state :: "'c outcome \<Rightarrow> 'c resolver" where
  "outcome_state (Yield y t s) = s"
| "outcome_state (Continue t s) = s"
| "outcome_state (Return t s) = s"
| "outcome_state (Raise e t s) = s"

fun outcome_local :: "'c outcome \<Rightarrow> atom list option" where
  "outcome_local (Yield y t s) = t"
| "outcome_local (Continue t s) = t"
| "outcome_local (Return t s) = t"
| "outcome_local (Raise e t s) = t"

text \<open>
  Lines 121 to 125, the assertion that ends a pass. It is also the first thing that a
  resumed generator executes after a yield.
\<close>

definition end_of_pass :: "atom list option \<Rightarrow> 'c resolver \<Rightarrow> 'c outcome" where
  "end_of_pass t s =
     (case current_stack s of
        None \<Rightarrow> Raise TypeError t s
      | Some i \<Rightarrow>
          if list_ex blocks (search_stacks s ! i) then Raise AssertionError t s
          else Continue t s)"

text \<open>
  Lines 71 to 80: the scan over \<^verbatim>\<open>c.depends + c.rdepends\<close>. \<open>t\<close> is the tuple of line
  69, \<open>i\<close> the position of the current stack. The result says whether the scan found a
  missing atom (and pushed it).
\<close>

fun scan_deps ::
  "atom list \<Rightarrow> atom list \<Rightarrow> nat \<Rightarrow> 'c resolver \<Rightarrow> exn \<times> 'c resolver + bool \<times> 'c resolver" where
  "scan_deps [] t i s = Inr (False, s)"
| "scan_deps (x # xs) t i s =
     (if atoms s x = None
      then Inr (True, s\<lparr>current_atom := Some x,
                         search_stacks := (search_stacks s)[i := search_stacks s ! i @ [x]]\<rparr>)
      else (case ref_stack_for_atom x t s of
              Inl e \<Rightarrow> Inl e
            | Inr s' \<Rightarrow> scan_deps xs t i s'))"

text \<open>
  Lines 94 to 113, the branch for \<^verbatim>\<open>a.blocks\<close>. The for loop looks for the first live
  choice point under \<^verbatim>\<open>a.key\<close> that is true and whose current package \<open>a\<close> matches;
  its else clause runs when there is none.
\<close>

definition blocker_case ::
  "('c, 'p) cp_ops \<Rightarrow> atom \<Rightarrow> atom list option \<Rightarrow> nat \<Rightarrow> 'c resolver \<Rightarrow> 'c outcome" where
  "blocker_case ops a t i s =
     (case find (\<lambda>j. cp_nonzero ops (cps s ! j) \<and>
                     atom_match ops a (cp_current_pkg ops (cps s ! j)))
             (case pkg_atoms s (key a) of None \<Rightarrow> [] | Some xs \<Rightarrow> xs) of
        Some j \<Rightarrow>
          (case unsatisfiable_atom ops a ''backtracking for blocker'' False
                  (s\<lparr>current_atom := Some a\<rparr>) of
             Inl (e, s') \<Rightarrow> Raise e t s'
           | Inr s' \<Rightarrow>
               (case pop_stack i s' of
                  Inl (e, s'') \<Rightarrow> Raise e t s''
                | Inr s'' \<Rightarrow> end_of_pass t s''))
      | None \<Rightarrow>
          let s1 = s\<lparr>cps := cps s @ [cp_new ops a []],
                     atoms := (atoms s)(a \<mapsto> (length (cps s), []))\<rparr>
          in (case t of
                None \<Rightarrow> Raise UnboundLocalError t s1
              | Some tv \<Rightarrow>
                  (case ref_stack_for_atom a tv s1 of
                     Inl (e, s') \<Rightarrow> Raise e t s'
                   | Inr s2 \<Rightarrow>
                       (case pop_stack i s2 of
                          Inl (e, s3) \<Rightarrow> Raise e t s3
                        | Inr s3 \<Rightarrow> end_of_pass t s3))))"

text \<open>
  Lines 82 to 116: something is missing. \<open>a\<close> is the atom that was on top when the pass
  began, \<open>m\<close> the atom on top now.
\<close>

definition missing_case ::
  "('c, 'p) cp_ops \<Rightarrow> atom \<Rightarrow> atom list option \<Rightarrow> nat \<Rightarrow> 'c resolver \<Rightarrow> 'c outcome" where
  "missing_case ops a t i s =
     (let cur = search_stacks s ! i;
          m = last cur;
          s1 = s\<lparr>current_atom := Some m\<rparr>
      in if m \<in> set (butlast cur) then Yield (AndRestriction m a) t s1
         else if blocks a then blocker_case ops a t i s1
         else Yield (NeedAtom m) t s1)"

definition iterate_step ::
  "('c, 'p) cp_ops \<Rightarrow> atom list option \<Rightarrow> 'c resolver \<Rightarrow> 'c outcome" where
  "iterate_step ops t s =
     (if search_stacks s = [] then Return t s
      else if current_stack s \<noteq> Some (length (search_stacks s) - 1)
      then Raise AssertionError t s
      else
        let i = length (search_stacks s) - 1;
            cur = search_stacks s ! i
        in if cur = [] then
             (let s1 = s\<lparr>search_stacks := butlast (search_stacks s)\<rparr>
              in if search_stacks s1 = [] then Return t (s1\<lparr>current_stack := None\<rparr>)
                 else (case grab_next_stack s1 of
                         Inl (e, s2) \<Rightarrow> Raise e t s2
                       | Inr s2 \<Rightarrow> Continue t s2))
           else if list_ex blocks cur then Raise AssertionError t s
           else
             let a = last cur
             in (case atoms s a of
                   None \<Rightarrow> missing_case ops a t i s
                 | Some (ci, rs) \<Rightarrow>
                     (case scan_deps (cp_depends ops (cps s ! ci) @ cp_rdepends ops (cps s ! ci))
                             cur i s of
                        Inl (e, s') \<Rightarrow> Raise e (Some cur) s'
                      | Inr (missing_atoms, s') \<Rightarrow>
                          if missing_atoms then missing_case ops a (Some cur) i s'
                          else (case pop_stack i s' of
                                  Inl (e, s'') \<Rightarrow> Raise e (Some cur) s''
                                | Inr s'' \<Rightarrow> end_of_pass (Some cur) s''))))"

text \<open>
  A generator that was suspended at a yield resumes behind it: it first runs the assertion
  that ends the pass (lines 121 to 125) and then goes on with the next pass.
\<close>

definition resume_after_yield ::
  "('c, 'p) cp_ops \<Rightarrow> atom list option \<Rightarrow> 'c resolver \<Rightarrow> 'c outcome" where
  "resume_after_yield ops t s =
     (case end_of_pass t s of
        Continue t' s' \<Rightarrow> iterate_step ops t' s'
      | Yield y t' s' \<Rightarrow> Yield y t' s'
      | Return t' s' \<Rightarrow> Return t' s'
      | Raise e t' s' \<Rightarrow> Raise e t' s')"

text \<open>What the caller of the generator sees of an outcome.\<close>

fun outcome_yield :: "'c outcome \<Rightarrow> yielded option" where
  "outcome_yield (Yield y t s) = Some y"
| "outcome_yield (Continue t s) = None"
| "outcome_yield (Return t s) = None"
| "outcome_yield (Raise e t s) = None"

fun outcome_raise :: "'c outcome \<Rightarrow> exn option" where
  "outcome_raise (Yield y t s) = None"
| "outcome_raise (Continue t s) = None"
| "outcome_raise (Return t s) = None"
| "outcome_raise (Raise e t s) = Some e"

subsection \<open>Sessions\<close>

text \<open>
  The resolvers that a caller can produce from a fresh one with \<^verbatim>\<open>add_root_atom\<close>, the
  generator, \<^verbatim>\<open>satisfy_atom\<close> and \<^verbatim>\<open>unsatisfiable_atom\<close>, whether a call
  returns or raises. The first argument of the state is the local \<^verbatim>\<open>t\<close> of the
  generator in use; \<open>r_restart\<close> is a new call of \<^verbatim>\<open>iterate_unresolved_atoms()\<close>,
  whose locals are unbound.
\<close>

inductive reachable :: "('c, 'p) cp_ops \<Rightarrow> atom list option \<Rightarrow> 'c resolver \<Rightarrow> bool"
  for ops :: "('c, 'p) cp_ops" where
  r_init: "reachable ops None init"
| r_add_root: "reachable ops t s \<Longrightarrow> reachable ops t (final (add_root_atom a s))"
| r_step: "reachable ops t s \<Longrightarrow>
     reachable ops (outcome_local (iterate_step ops t s)) (outcome_state (iterate_step ops t s))"
| r_resume: "reachable ops t s \<Longrightarrow>
     reachable ops (outcome_local (resume_after_yield ops t s))
       (outcome_state (resume_after_yield ops t s))"
| r_restart: "reachable ops t s \<Longrightarrow> reachable ops None s"
| r_satisfy: "reachable ops t s \<Longrightarrow> reachable ops t (final (satisfy_atom ops a matches s))"
| r_unsatisfiable: "reachable ops t s \<Longrightarrow>
     reachable ops t (final (unsatisfiable_atom ops a msg permenant s))"

subsection \<open>Auxiliary notions for the proofs\<close>

text \<open>The resolver inside the result of a step of the protocol or of the scan.\<close>

fun step_state :: "exn \<times> 'c resolver + 'b \<times> 'c resolver \<Rightarrow> 'c resolver" where
  "step_state (Inl (e, s)) = s"
| "step_state (Inr (b, s)) = s"

text \<open>Lines 221 to 226 on their own: \<open>pkg_atoms\<close> after the choice points of \<open>a\<close> are removed.\<close>

definition drop_key :: "('c, 'p) cp_ops \<Rightarrow> atom \<Rightarrow> 'c resolver \<Rightarrow> (string \<rightharpoonup> nat list)" where
  "drop_key ops a s =
     (case pkg_atoms s (key a) of
        None \<Rightarrow> pkg_atoms s
      | Some xs \<Rightarrow>
          if filter (\<lambda>i. a \<noteq> cp_atom ops (cps s ! i)) xs = [] then (pkg_atoms s)(key a := None)
          else (pkg_atoms s)(key a \<mapsto> filter (\<lambda>i. a \<noteq> cp_atom ops (cps s ! i)) xs))"

text \<open>
  A stack with no blocker below its top; the invariant of the resolver says so of every
  search stack and every referencing stack, and that \<open>current_stack\<close> is a position
  of \<open>search_stacks\<close>.
\<close>

definition top_only :: "atom list \<Rightarrow> bool" where
  "top_only st = (\<not> list_ex blocks (butlast st))"

definition refs_ok :: "'c resolver \<Rightarrow> bool" where
  "refs_ok s = (\<forall>a ci refs. atoms s a = Some (ci, refs) \<longrightarrow> list_all top_only refs)"

definition cur_ok :: "'c resolver \<Rightarrow> bool" where
  "cur_ok s = (\<forall>i. current_stack s = Some i \<longrightarrow> i < length (search_stacks s))"

definition stack_inv :: "'c resolver \<Rightarrow> bool" where
  "stack_inv s = (list_all top_only (search_stacks s) \<and> refs_ok s \<and> cur_ok s)"

definition local_ok :: "atom list option \<Rightarrow> bool" where
  "local_ok t = (case t of None \<Rightarrow> True | Some tv \<Rightarrow> top_only tv)"

subsection \<open>A choice point implementation and example sessions\<close>

text \<open>
  Modelled from the spec: the class choice_point is missing from the sources. A choice
  point is its atom and the ordered list of the candidates that remain; a package is its
  name, its dependency atoms and its runtime-dependency atoms. The current package is the
  head of the list, \<^verbatim>\<open>depends\<close> and \<^verbatim>\<open>rdepends\<close> are those of the current package,
  the choice point is true while a candidate remains. The reduction removes the current
  candidate and returns the atoms that only the removed candidate required (no remaining
  candidate requires them); on an empty choice point it raises IndexError. An atom matches
  the packages named by its key. It is used for the examples only: every general theorem
  below holds for all implementations.
\<close>

type_synonym pkg = "string \<times> atom list \<times> atom list"

type_synonym simple_cp = "atom \<times> pkg list"

definition pkg_requires :: "pkg \<Rightarrow> atom list" where
  "pkg_requires p = fst (snd p) @ snd (snd p)"

definition simple_ops :: "(simple_cp, pkg) cp_ops" where
  "simple_ops =
     \<lparr>cp_new = (\<lambda>a ms. (a, ms)),
      cp_nonzero = (\<lambda>c. snd c \<noteq> []),
      cp_atom = fst,
      cp_current_pkg = (\<lambda>c. hd (snd c)),
      cp_depends = (\<lambda>c. case snd c of [] \<Rightarrow> [] | p # ps \<Rightarrow> fst (snd p)),
      cp_rdepends = (\<lambda>c. case snd c of [] \<Rightarrow> [] | p # ps \<Rightarrow> snd (snd p)),
      cp_reduce_atoms = (\<lambda>c a. case snd c of
          [] \<Rightarrow> (None, c)
        | p # ps \<Rightarrow>
            (Some (filter (\<lambda>x. list_all (\<lambda>q. x \<notin> set (pkg_requires q)) ps) (pkg_requires p), []),
             (fst c, ps))),
      atom_match = (\<lambda>a p. key a = fst p)\<rparr>"

text \<open>Atoms of the examples; \<open>atom_b\<close> is the blocker of \<open>atom_p\<close>.\<close>

definition atom_y :: atom where "atom_y = Atom ''y'' ''dev/y'' False"

definition atom_r :: atom where "atom_r = Atom ''r'' ''dev/r'' False"

definition atom_z :: atom where "atom_z = Atom ''z'' ''dev/z'' False"

definition atom_p :: atom where "atom_p = Atom ''p'' ''dev/p'' False"

definition atom_b :: atom where "atom_b = Atom ''!p'' ''dev/p'' True"

definition pkg_p1 :: pkg where "pkg_p1 = (''dev/p'', [], [])"

definition pkg_r_blocking :: pkg where "pkg_r_blocking = (''dev/r-1'', [atom_b], [])"

text \<open>
  A session: \<open>atom_y\<close> is added as a root, the generator yields it, and the caller
  reports that the lookup failed.
\<close>

definition s_root_y :: "simple_cp resolver" where
  "s_root_y = final (add_root_atom atom_y init)"

definition s_yield_y :: "simple_cp resolver" where
  "s_yield_y = outcome_state (iterate_step simple_ops None s_root_y)"

definition s_failed_y :: "simple_cp resolver" where
  "s_failed_y = final (unsatisfiable_atom simple_ops atom_y ''lookup failed'' True s_yield_y)"

text \<open>
  A session: \<open>atom_p\<close> is added as a root, yielded and satisfied with one candidate;
  then its blocker is added as a second root.
\<close>

definition s_p_chosen :: "simple_cp resolver" where
  "s_p_chosen = final (satisfy_atom simple_ops atom_p [pkg_p1]
       (outcome_state (iterate_step simple_ops None (final (add_root_atom atom_p init)))))"

definition s_blocker :: "simple_cp resolver" where
  "s_blocker = final (add_root_atom atom_b s_p_chosen)"

text \<open>
  A session: \<open>atom_r\<close> is added as a root, yielded and satisfied with a candidate that
  depends on the blocker \<open>atom_b\<close>; the next pass pushes the blocker.
\<close>

definition s_blocker_pushed :: "simple_cp resolver" where
  "s_blocker_pushed =
     outcome_state (iterate_step simple_ops None
       (final (satisfy_atom simple_ops atom_r [pkg_r_blocking]
         (outcome_state (iterate_step simple_ops None (final (add_root_atom atom_r init)))))))"

text \<open>
  A session: \<open>atom_y\<close> is added as a root, yielded and satisfied with one candidate.
  The caller then registers the root-level reference that line 37 means to register
  (\<^verbatim>\<open>ref_stack_for_atom(y, [])\<close>) and releases the path through the stack
  (\<^verbatim>\<open>deref_stack_for_atom(y, [y])\<close>): the empty stack is the only referencing stack of
  \<open>atom_y\<close>.
\<close>

definition pkg_y1 :: pkg where "pkg_y1 = (''dev/y'', [], [])"

definition s_root_ref :: "simple_cp resolver" where
  "s_root_ref =
     final (deref_stack_for_atom simple_ops atom_y [atom_y]
       (final (ref_stack_for_atom atom_y []
         (final (satisfy_atom simple_ops atom_y [pkg_y1] s_yield_y)))))"

text \<open>
  \<open>atom_r\<close> has two candidates, the first requires \<open>atom_y\<close>, the second
  \<open>atom_z\<close>; \<open>atom_y\<close> was just installed with no candidate.
\<close>

definition s_backtrack :: "simple_cp resolver" where
  "s_backtrack = \<lparr>search_stacks = [[], [atom_r, atom_y]], current_stack = Some 1,
     current_atom = Some atom_y, false_atoms = {atom_y},
     atoms = [atom_r \<mapsto> (0, [[atom_r]]), atom_y \<mapsto> (1, [[atom_r, atom_y]])],
     pkg_atoms = [''dev/r'' \<mapsto> [0], ''dev/y'' \<mapsto> [1]],
     cps = [(atom_r, [(''dev/r-1'', [atom_y], []), (''dev/r-2'', [atom_z], [])]), (atom_y, [])]\<rparr>"

text \<open>
  \<open>atom_r\<close> is on top of the current stack and tracked; its candidate depends on
  \<open>atom_y\<close>, which has no entry and is below \<open>atom_r\<close> in the stack.
\<close>

definition s_cycle_push :: "simple_cp resolver" where
  "s_cycle_push = \<lparr>search_stacks = [[], [atom_y, atom_r]], current_stack = Some 1,
     current_atom = Some atom_r, false_atoms = {},
     atoms = [atom_r \<mapsto> (0, [[atom_y, atom_r]])],
     pkg_atoms = [''dev/r'' \<mapsto> [0]],
     cps = [(atom_r, [(''dev/r-1'', [atom_y], [])])]\<rparr>"

text \<open>
  The stack after \<open>atom_y\<close> is pushed: the untracked atom on top of the current stack
  occurs below in it.
\<close>

definition s_cycle :: "simple_cp resolver" where
  "s_cycle = \<lparr>search_stacks = [[], [atom_y, atom_r, atom_y]], current_stack = Some 1,
     current_atom = Some atom_y, false_atoms = {},
     atoms = [atom_r \<mapsto> (0, [[atom_y, atom_r]])],
     pkg_atoms = [''dev/r'' \<mapsto> [0]],
     cps = [(atom_r, [(''dev/r-1'', [atom_y], [])])]\<rparr>"

text \<open>\<open>atom_y\<close> is referenced from two paths.\<close>

definition s_two_refs :: "simple_cp resolver" where
  "s_two_refs = \<lparr>search_stacks = [[], [atom_r]], current_stack = Some 1,
     current_atom = Some atom_y, false_atoms = {},
     atoms = [atom_r \<mapsto> (0, [[atom_r]]),
              atom_y \<mapsto> (1, [[atom_r, atom_y], [atom_p, atom_y]])],
     pkg_atoms = [''dev/r'' \<mapsto> [0], ''dev/y'' \<mapsto> [1]],
     cps = [(atom_r, [(''dev/r-1'', [atom_y], [])]), (atom_y, [(''dev/y-1'', [], [])])]\<rparr>"

section \<open>Properties\<close>

subsection \<open>The shape of the bookkeeping operations\<close>

lemma ref_stack_cases:
  "atoms s a = None \<Longrightarrow> ref_stack_for_atom a st s = Inl (AssertionError, s)"
  "atoms s a = Some (c, refs) \<Longrightarrow> st \<in> set refs \<Longrightarrow> ref_stack_for_atom a st s = Inr s"
  "atoms s a = Some (c, refs) \<Longrightarrow> st \<notin> set refs \<Longrightarrow>
     ref_stack_for_atom a st s = Inr (s\<lparr>atoms := (atoms s)(a \<mapsto> (c, refs @ [st]))\<rparr>)"
  by (simp_all add: ref_stack_for_atom_def)

lemma deref_cases:
  "atoms s a = None \<Longrightarrow> deref_stack_for_atom ops a st s = Inl (AssertionError, s)"
  "atoms s a = Some (c, refs) \<Longrightarrow> filter (\<lambda>x. take (length st) x \<noteq> st) refs \<noteq> [] \<Longrightarrow>
     deref_stack_for_atom ops a st s =
       Inr (s\<lparr>atoms := (atoms s)(a \<mapsto> (c, filter (\<lambda>x. take (length st) x \<noteq> st) refs))\<rparr>)"
  "atoms s a = Some (c, refs) \<Longrightarrow> filter (\<lambda>x. take (length st) x \<noteq> st) refs = [] \<Longrightarrow>
     deref_stack_for_atom ops a st s =
       Inr (s\<lparr>pkg_atoms := drop_key ops a s, atoms := (atoms s)(a := None)\<rparr>)"
  by (simp_all add: deref_stack_for_atom_def drop_key_def Let_def cong: option.case_cong)

lemma take_neq_prefix: "(take (length st) x \<noteq> st) = (\<not> prefix st x)"
proof
  assume "take (length st) x \<noteq> st"
  then show "\<not> prefix st x" by (auto simp: prefix_def)
next
  assume "\<not> prefix st x"
  then show "take (length st) x \<noteq> st" by (metis take_is_prefix)
qed

lemma unsatisfiable_cases:
  "current_atom s \<noteq> Some a \<Longrightarrow> unsatisfiable_atom ops a msg p s = Inl (AssertionError, s)"
  "current_atom s = Some a \<Longrightarrow> atoms s a = None \<Longrightarrow>
     unsatisfiable_atom ops a msg p s =
       Inl (KeyError, if p then s\<lparr>false_atoms := insert a (false_atoms s)\<rparr> else s)"
  "current_atom s = Some a \<Longrightarrow> atoms s a = Some (c, refs) \<Longrightarrow>
     unsatisfiable_atom ops a msg p s =
       (case unsat_loop ops a msg refs None
               (if p then s\<lparr>false_atoms := insert a (false_atoms s)\<rparr> else s) of
          Inl e \<Rightarrow> Inl e
        | Inr (bail, s2) \<Rightarrow>
            (case grab_next_stack s2 of
               Inl e \<Rightarrow> Inl e
             | Inr s3 \<Rightarrow> (case bail of Some b \<Rightarrow> Inl (b, s3) | None \<Rightarrow> Inr s3)))"
  by (simp_all add: unsatisfiable_atom_def Let_def)

lemma satisfy_atom_shape:
  assumes "current_stack s = Some i" "search_stacks s ! i \<noteq> []" "last (search_stacks s ! i) = a"
  shows "satisfy_atom ops a ms s =
     (case ref_stack_for_atom a (search_stacks s ! i) (install_choice_point ops a ms s) of
        Inl e \<Rightarrow> Inl e
      | Inr s2 \<Rightarrow>
          if \<not> cp_nonzero ops (cp_new ops a ms) then
            (case unsatisfiable_atom ops a ''None supplied'' True s2 of
               Inl e \<Rightarrow> Inl e
             | Inr s3 \<Rightarrow> if current_stack s3 = Some i then pop_stack i s3 else Inr s3)
          else Inr s2)"
  using assms by (simp add: satisfy_atom_def)

lemma satisfy_atom_fail:
  "current_stack s = None \<Longrightarrow> satisfy_atom ops a ms s = Inl (TypeError, s)"
  "current_stack s = Some i \<Longrightarrow> search_stacks s ! i = [] \<Longrightarrow>
     satisfy_atom ops a ms s = Inl (IndexError, s)"
  "current_stack s = Some i \<Longrightarrow> search_stacks s ! i \<noteq> [] \<Longrightarrow> last (search_stacks s ! i) \<noteq> a \<Longrightarrow>
     satisfy_atom ops a ms s = Inl (AssertionError, s)"
  by (simp_all add: satisfy_atom_def)

lemma install_then_ref:
  "ref_stack_for_atom a st (install_choice_point ops a ms s) =
     Inr ((install_choice_point ops a ms s)
            \<lparr>atoms := (atoms (install_choice_point ops a ms s))(a \<mapsto> (length (cps s), [st]))\<rparr>)"
  by (simp add: ref_stack_for_atom_def install_choice_point_def)

lemma iterate_step_cases:
  "search_stacks s = [] \<Longrightarrow> iterate_step ops t s = Return t s"
  "search_stacks s \<noteq> [] \<Longrightarrow> current_stack s \<noteq> Some (length (search_stacks s) - 1) \<Longrightarrow>
     iterate_step ops t s = Raise AssertionError t s"
  "search_stacks s \<noteq> [] \<Longrightarrow> current_stack s = Some (length (search_stacks s) - 1) \<Longrightarrow>
     search_stacks s ! (length (search_stacks s) - 1) = [] \<Longrightarrow> butlast (search_stacks s) = [] \<Longrightarrow>
     iterate_step ops t s = Return t (s\<lparr>search_stacks := [], current_stack := None\<rparr>)"
  "search_stacks s \<noteq> [] \<Longrightarrow> current_stack s = Some (length (search_stacks s) - 1) \<Longrightarrow>
     search_stacks s ! (length (search_stacks s) - 1) = [] \<Longrightarrow> butlast (search_stacks s) \<noteq> [] \<Longrightarrow>
     iterate_step ops t s =
       Continue t (s\<lparr>search_stacks := butlast (search_stacks s),
                      current_stack := Some (length (butlast (search_stacks s)) - 1)\<rparr>)"
  "search_stacks s \<noteq> [] \<Longrightarrow> current_stack s = Some (length (search_stacks s) - 1) \<Longrightarrow>
     search_stacks s ! (length (search_stacks s) - 1) \<noteq> [] \<Longrightarrow>
     list_ex blocks (search_stacks s ! (length (search_stacks s) - 1)) \<Longrightarrow>
     iterate_step ops t s = Raise AssertionError t s"
  by (simp_all add: iterate_step_def Let_def grab_next_stack_def)

lemma iterate_step_missing:
  assumes "search_stacks s \<noteq> []" and i: "i = length (search_stacks s) - 1"
    and "current_stack s = Some i" and cs: "cs = search_stacks s ! i"
    and "cs \<noteq> []" "\<not> list_ex blocks cs" "atoms s (last cs) = None"
  shows "iterate_step ops t s = missing_case ops (last cs) t i s"
  unfolding iterate_step_def Let_def i [symmetric] cs [symmetric]
  using assms(1,3,5,6,7) by simp

lemma iterate_step_tracked:
  assumes "search_stacks s \<noteq> []" and i: "i = length (search_stacks s) - 1"
    and "current_stack s = Some i" and cs: "cs = search_stacks s ! i"
    and "cs \<noteq> []" "\<not> list_ex blocks cs" "atoms s (last cs) = Some (ci, rs)"
  shows "iterate_step ops t s =
       (case scan_deps (cp_depends ops (cps s ! ci) @ cp_rdepends ops (cps s ! ci)) cs i s of
          Inl (e, s') \<Rightarrow> Raise e (Some cs) s'
        | Inr (missing_atoms, s') \<Rightarrow>
            if missing_atoms then missing_case ops (last cs) (Some cs) i s'
            else (case pop_stack i s' of
                    Inl (e, s'') \<Rightarrow> Raise e (Some cs) s''
                  | Inr s'' \<Rightarrow> end_of_pass (Some cs) s''))"
  unfolding iterate_step_def Let_def i [symmetric] cs [symmetric]
  using assms(1,3,5,6,7) by simp

lemma missing_case_no_block:
  "\<not> blocks a \<Longrightarrow>
   outcome_state (missing_case ops a t i s) = s\<lparr>current_atom := Some (last (search_stacks s ! i))\<rparr> \<and>
   outcome_local (missing_case ops a t i s) = t"
  by (simp add: missing_case_def Let_def)

lemma end_of_pass_state:
  "outcome_state (end_of_pass t s) = s \<and> outcome_local (end_of_pass t s) = t"
  by (cases "current_stack s") (simp_all add: end_of_pass_def)

subsection \<open>Registering and dereferencing\<close>

text \<open>
  Claim C10. Registering a referencing stack is idempotent: for an atom with an entry, a
  stack that is already among its referencing stacks leaves the resolver unchanged,
  registering twice is the same as registering once, and afterwards the stack occurs once
  if it was absent and as often as before otherwise.
\<close>

theorem ref_stack_idempotent:
  "atoms s a = Some (c, refs) \<Longrightarrow>
   \<exists>s'. ref_stack_for_atom a stack s = Inr s' \<and>
        (stack \<in> set refs \<longrightarrow> s' = s) \<and>
        ref_stack_for_atom a stack s' = Inr s' \<and>
        (\<exists>refs'. atoms s' a = Some (c, refs') \<and> count_list refs' stack = max 1 (count_list refs stack))"
proof (cases "stack \<in> set refs")
  case True
  assume a: "atoms s a = Some (c, refs)"
  have "count_list refs stack \<noteq> 0" using True by (simp add: count_list_0_iff)
  then have "count_list refs stack = max 1 (count_list refs stack)" by (simp add: max_def)
  then show ?thesis using a True by (simp add: ref_stack_for_atom_def)
next
  case False
  assume a: "atoms s a = Some (c, refs)"
  have "count_list refs stack = 0" using False by (simp add: count_list_0_iff)
  then show ?thesis using a False by (simp add: ref_stack_for_atom_def)
qed

lemma s_p_chosen_eq:
  "s_p_chosen = \<lparr>search_stacks = [[], [atom_p]], current_stack = Some 1,
      current_atom = Some atom_p, false_atoms = {},
      atoms = [atom_p \<mapsto> (0, [[atom_p]])], pkg_atoms = [''dev/p'' \<mapsto> [0]],
      cps = [(atom_p, [pkg_p1])]\<rparr>"
proof -
  have a: "final (add_root_atom atom_p init) =
      \<lparr>search_stacks = [[], [atom_p]], current_stack = Some 1, current_atom = None,
       false_atoms = {}, atoms = Map.empty, pkg_atoms = Map.empty, cps = ([] :: simple_cp list)\<rparr>"
    by (simp add: add_root_atom_def init_def grab_next_stack_def)
  have b: "outcome_state (iterate_step simple_ops None (final (add_root_atom atom_p init))) =
      \<lparr>search_stacks = [[], [atom_p]], current_stack = Some 1, current_atom = Some atom_p,
       false_atoms = {}, atoms = Map.empty, pkg_atoms = Map.empty, cps = ([] :: simple_cp list)\<rparr>"
    unfolding a by (simp add: iterate_step_def missing_case_def Let_def atom_p_def)
  show ?thesis
    unfolding s_p_chosen_def b
    by (simp add: satisfy_atom_def install_choice_point_def ref_stack_for_atom_def simple_ops_def
        atom_p_def)
qed

text \<open>The tracked atom \<open>atom_p\<close> and its own referencing stack.\<close>

theorem ref_stack_idempotent_witness:
  "atoms s_p_chosen atom_p = Some (0, [[atom_p]]) \<and>
   ref_stack_for_atom atom_p [atom_p] s_p_chosen = Inr s_p_chosen"
proof -
  have h: "atoms s_p_chosen atom_p = Some (0, [[atom_p]])" by (simp add: s_p_chosen_eq)
  show ?thesis using h ref_stack_idempotent [OF h, of "[atom_p]"] by auto
qed

text \<open>
  Claim C6. For a tracked atom, \<^verbatim>\<open>deref_stack_for_atom\<close> returns; the referencing
  stacks that remain are exactly those of which the given stack is not a prefix, in
  their order. If some remain, nothing but the atom's list of referencing stacks changes.
  If none remain, the atom's entry is deleted, the choice points of the atom are removed
  from the list under the atom's key, the key is dropped when its list becomes empty,
  the other keys and the rest of the resolver are unchanged.
\<close>

theorem deref_stack_for_atom_effect:
  "atoms s a = Some (ci, refs) \<Longrightarrow>
   \<exists>s'. deref_stack_for_atom ops a stack s = Inr s' \<and>
     (filter (\<lambda>r. \<not> prefix stack r) refs \<noteq> [] \<longrightarrow>
        s' = s\<lparr>atoms := (atoms s)(a \<mapsto> (ci, filter (\<lambda>r. \<not> prefix stack r) refs))\<rparr>) \<and>
     (filter (\<lambda>r. \<not> prefix stack r) refs = [] \<longrightarrow>
        atoms s' = (atoms s)(a := None) \<and>
        pkg_atoms s' (key a) =
          (case pkg_atoms s (key a) of
             None \<Rightarrow> None
           | Some xs \<Rightarrow>
               if filter (\<lambda>i. a \<noteq> cp_atom ops (cps s ! i)) xs = [] then None
               else Some (filter (\<lambda>i. a \<noteq> cp_atom ops (cps s ! i)) xs)) \<and>
        (\<forall>k. k \<noteq> key a \<longrightarrow> pkg_atoms s' k = pkg_atoms s k) \<and>
        (cp_atom ops (cps s ! ci) = a \<longrightarrow>
           ci \<notin> (case pkg_atoms s' (key a) of None \<Rightarrow> {} | Some xs \<Rightarrow> set xs)) \<and>
        search_stacks s' = search_stacks s \<and> current_stack s' = current_stack s \<and>
        current_atom s' = current_atom s \<and> false_atoms s' = false_atoms s \<and>
        cps s' = cps s)"
proof (cases "filter (\<lambda>x. take (length stack) x \<noteq> stack) refs = []")
  case True
  assume a: "atoms s a = Some (ci, refs)"
  have d: "deref_stack_for_atom ops a stack s =
       Inr (s\<lparr>pkg_atoms := drop_key ops a s, atoms := (atoms s)(a := None)\<rparr>)"
    using a True by (rule deref_cases(3))
  have e: "filter (\<lambda>r. \<not> prefix stack r) refs = []"
    using True by (simp add: take_neq_prefix)
  show ?thesis unfolding d using e
    by (cases "pkg_atoms s (key a)") (auto simp: drop_key_def)
next
  case False
  assume a: "atoms s a = Some (ci, refs)"
  have d: "deref_stack_for_atom ops a stack s =
       Inr (s\<lparr>atoms := (atoms s)(a \<mapsto> (ci, filter (\<lambda>x. take (length stack) x \<noteq> stack) refs))\<rparr>)"
    using a False by (rule deref_cases(2))
  show ?thesis unfolding d using False by (simp add: take_neq_prefix)
qed

text \<open>One of the two referencing stacks of \<open>atom_y\<close> starts with \<open>atom_r\<close>.\<close>

theorem deref_stack_for_atom_effect_witness:
  "atoms s_two_refs atom_y = Some (1, [[atom_r, atom_y], [atom_p, atom_y]]) \<and>
   deref_stack_for_atom simple_ops atom_y [atom_r] s_two_refs =
     Inr (s_two_refs\<lparr>atoms := (atoms s_two_refs)(atom_y \<mapsto> (1, [[atom_p, atom_y]]))\<rparr>)"
proof -
  have h: "atoms s_two_refs atom_y = Some (1, [[atom_r, atom_y], [atom_p, atom_y]])"
    by (simp add: s_two_refs_def atom_y_def atom_r_def)
  have f: "filter (\<lambda>r. \<not> prefix [atom_r] r) [[atom_r, atom_y], [atom_p, atom_y]] = [[atom_p, atom_y]]"
    by (simp add: atom_r_def atom_p_def)
  show ?thesis
    using h deref_stack_for_atom_effect [OF h, of simple_ops "[atom_r]"] f by auto
qed

subsection \<open>Roots\<close>

lemma add_root_untracked:
  "atoms s a = None \<Longrightarrow>
   add_root_atom a s =
     Inr (s\<lparr>search_stacks := search_stacks s @ [[a]],
            current_stack := Some (length (search_stacks s))\<rparr>)"
  by (simp add: add_root_atom_def grab_next_stack_def)

text \<open>
  Claim C5. For a tracked atom \<^verbatim>\<open>add_root_atom\<close> should only add a root-level
  reference. The code raises NameError instead and leaves the resolver unchanged: in the
  session where \<open>atom_p\<close> is tracked no reference is added.
\<close>

theorem add_root_tracked_name_error:
  "atoms s_p_chosen atom_p = Some (0, [[atom_p]]) \<and>
   add_root_atom atom_p s_p_chosen = Inl (NameError, s_p_chosen)"
  by (simp add: s_p_chosen_eq add_root_atom_def)

subsection \<open>The set of false atoms\<close>

lemma false_atoms_grab: "false_atoms (final (grab_next_stack s)) = false_atoms s"
  by (simp add: grab_next_stack_def)

lemma false_atoms_pop: "false_atoms (final (pop_stack i s)) = false_atoms s"
  by (simp add: pop_stack_def)

lemma false_atoms_ref: "false_atoms (final (ref_stack_for_atom a st s)) = false_atoms s"
proof (cases "atoms s a")
  case None
  then show ?thesis by (simp add: ref_stack_cases)
next
  case (Some e)
  obtain c refs where "e = (c, refs)" by (cases e)
  with Some show ?thesis by (cases "st \<in> set refs") (simp_all add: ref_stack_cases)
qed

lemma false_atoms_deref: "false_atoms (final (deref_stack_for_atom ops a st s)) = false_atoms s"
proof (cases "atoms s a")
  case None
  then show ?thesis by (simp add: deref_cases)
next
  case (Some e)
  obtain c refs where "e = (c, refs)" by (cases e)
  with Some show ?thesis
    by (cases "filter (\<lambda>x. take (length st) x \<noteq> st) refs = []") (simp_all add: deref_cases)
qed

lemma false_atoms_deref_released:
  "false_atoms (final (deref_released ops xs t s)) = false_atoms s"
proof (induction xs arbitrary: s)
  case Nil
  then show ?case by simp
next
  case (Cons x xs)
  show ?case
  proof (cases "atoms s x = None")
    case True
    then show ?thesis using Cons.IH by simp
  next
    case False
    show ?thesis
    proof (cases "deref_stack_for_atom ops x t s")
      case (Inl e)
      then show ?thesis using False false_atoms_deref [of ops x t s]
        by (cases e) (simp del: not_None_eq)
    next
      case (Inr s')
      then show ?thesis using False false_atoms_deref [of ops x t s] Cons.IH [of s']
        by (simp del: not_None_eq)
    qed
  qed
qed

lemma false_atoms_after_release:
  "false_atoms (snd (after_release ops c' wc t s)) = false_atoms s"
  by (simp add: after_release_def)

lemma false_atoms_unsat_step:
  "false_atoms (step_state (unsat_step ops stack s)) = false_atoms s"
proof (cases "length stack < 2")
  case True
  then show ?thesis by (simp add: unsat_step_def)
next
  case False
  show ?thesis
  proof (cases "atoms s (stack ! (length stack - 2))")
    case None
    then show ?thesis using False by (simp add: unsat_step_def)
  next
    case (Some e)
    obtain ci rs where e: "e = (ci, rs)" by (cases e)
    obtain wc rel c' where rp: "reduce_parent ops s (cps s ! ci) (last stack) = (wc, rel, c')"
      by (cases "reduce_parent ops s (cps s ! ci) (last stack)") auto
    define s1 where "s1 = s\<lparr>cps := (cps s)[ci := c']\<rparr>"
    have fa: "false_atoms (final (deref_released ops rel (butlast stack) s1)) = false_atoms s"
      by (simp add: false_atoms_deref_released s1_def)
    have us: "unsat_step ops stack s =
        (case deref_released ops rel (butlast stack) s1 of
           Inl e \<Rightarrow> Inl e
         | Inr s2 \<Rightarrow> Inr (after_release ops c' wc (butlast stack) s2))"
      using False Some e rp by (simp add: unsat_step_def s1_def)
    show ?thesis
    proof (cases "deref_released ops rel (butlast stack) s1")
      case (Inl x)
      then show ?thesis using fa us by (cases x) simp
    next
      case (Inr s2)
      then show ?thesis using fa us
          false_atoms_after_release [of ops c' wc "butlast stack" s2]
        by (cases "after_release ops c' wc (butlast stack) s2") simp
    qed
  qed
qed

lemma false_atoms_unsat_loop:
  "false_atoms (step_state (unsat_loop ops a msg q bail s)) = false_atoms s"
proof (induction ops a msg q bail s rule: unsat_loop.induct)
  case (1 ops a msg bail s)
  then show ?case by simp
next
  case (2 ops a msg stack q bail s)
  show ?case
  proof (cases "unsat_step ops stack s")
    case (Inl e)
    then show ?thesis using false_atoms_unsat_step [of ops stack s]
      by (cases e) simp
  next
    case (Inr r)
    then show ?thesis using false_atoms_unsat_step [of ops stack s] "2.IH" [OF Inr]
      by (cases r) simp
  qed
qed

lemma false_atoms_unsatisfiable:
  "false_atoms (final (unsatisfiable_atom ops a msg p s)) =
     (if current_atom s = Some a \<and> p then insert a (false_atoms s) else false_atoms s)"
proof (cases "current_atom s = Some a")
  case False
  then show ?thesis by (simp add: unsatisfiable_atom_def)
next
  case True
  define s1 where "s1 = (if p then s\<lparr>false_atoms := insert a (false_atoms s)\<rparr> else s)"
  have f1: "false_atoms s1 = (if p then insert a (false_atoms s) else false_atoms s)"
    by (simp add: s1_def)
  show ?thesis
  proof (cases "atoms s1 a")
    case None
    then have "unsatisfiable_atom ops a msg p s = Inl (KeyError, s1)"
      using True by (simp add: unsatisfiable_atom_def s1_def Let_def)
    then show ?thesis using True f1 by simp
  next
    case (Some e)
    obtain c refs where e: "e = (c, refs)" by (cases e)
    have fl: "false_atoms (step_state (unsat_loop ops a msg refs None s1)) = false_atoms s1"
      by (rule false_atoms_unsat_loop)
    have ua: "unsatisfiable_atom ops a msg p s =
       (case unsat_loop ops a msg refs None s1 of
          Inl e \<Rightarrow> Inl e
        | Inr (bail, s2) \<Rightarrow>
            (case grab_next_stack s2 of
               Inl e \<Rightarrow> Inl e
             | Inr s3 \<Rightarrow> (case bail of Some b \<Rightarrow> Inl (b, s3) | None \<Rightarrow> Inr s3)))"
      using True Some e by (simp add: unsatisfiable_atom_def s1_def Let_def)
    show ?thesis
    proof (cases "unsat_loop ops a msg refs None s1")
      case (Inl x)
      then show ?thesis using True f1 fl ua by (cases x) simp
    next
      case (Inr r)
      obtain bail s2 where r: "r = (bail, s2)" by (cases r)
      have g: "false_atoms (final (grab_next_stack s2)) = false_atoms s1"
        using fl Inr r by (simp add: false_atoms_grab)
      show ?thesis
      proof (cases "grab_next_stack s2")
        case (Inl y)
        then show ?thesis using True f1 g ua Inr r by (cases y) simp
      next
        case (Inr s3)
        then show ?thesis using True f1 g ua \<open>unsat_loop ops a msg refs None s1 = Inr r\<close> r
          by (cases bail) simp_all
      qed
    qed
  qed
qed

lemma false_atoms_install:
  "false_atoms (install_choice_point ops a ms s) = false_atoms s"
  by (simp add: install_choice_point_def)

lemma false_atoms_satisfy_empty:
  assumes "current_stack s = Some i" "search_stacks s ! i \<noteq> []" "last (search_stacks s ! i) = a"
    and "current_atom s = Some a" "\<not> cp_nonzero ops (cp_new ops a ms)"
  shows "false_atoms (final (satisfy_atom ops a ms s)) = insert a (false_atoms s)"
proof -
  define s2 where "s2 = (install_choice_point ops a ms s)
            \<lparr>atoms := (atoms (install_choice_point ops a ms s))(a \<mapsto> (length (cps s), [search_stacks s ! i]))\<rparr>"
  have ca: "current_atom s2 = Some a" "false_atoms s2 = false_atoms s"
    using assms(4) by (simp_all add: s2_def install_choice_point_def)
  have sh: "satisfy_atom ops a ms s =
      (case unsatisfiable_atom ops a ''None supplied'' True s2 of
               Inl e \<Rightarrow> Inl e
             | Inr s3 \<Rightarrow> if current_stack s3 = Some i then pop_stack i s3 else Inr s3)"
    using assms(5) by (simp add: satisfy_atom_shape [OF assms(1-3)] install_then_ref s2_def)
  have fu: "false_atoms (final (unsatisfiable_atom ops a ''None supplied'' True s2)) = insert a (false_atoms s)"
    using ca by (simp add: false_atoms_unsatisfiable)
  show ?thesis
  proof (cases "unsatisfiable_atom ops a ''None supplied'' True s2")
    case (Inl x)
    then show ?thesis using sh fu by (cases x) simp
  next
    case (Inr s3)
    then show ?thesis using sh fu false_atoms_pop [of i s3] by simp
  qed
qed

lemma false_atoms_satisfy:
  "false_atoms s \<subseteq> false_atoms (final (satisfy_atom ops a ms s))"
proof (cases "current_stack s")
  case None
  then show ?thesis by (simp add: satisfy_atom_fail)
next
  case (Some i)
  show ?thesis
  proof (cases "search_stacks s ! i = []")
    case True
    then show ?thesis using Some by (simp add: satisfy_atom_fail)
  next
    case ne: False
    show ?thesis
    proof (cases "last (search_stacks s ! i) = a")
      case False
      then show ?thesis using Some ne by (simp add: satisfy_atom_fail)
    next
      case True
      define s2 where "s2 = (install_choice_point ops a ms s)
            \<lparr>atoms := (atoms (install_choice_point ops a ms s))(a \<mapsto> (length (cps s), [search_stacks s ! i]))\<rparr>"
      have f2: "false_atoms s2 = false_atoms s"
        by (simp add: s2_def install_choice_point_def)
      have sh: "satisfy_atom ops a ms s =
          (if \<not> cp_nonzero ops (cp_new ops a ms) then
            (case unsatisfiable_atom ops a ''None supplied'' True s2 of
               Inl e \<Rightarrow> Inl e
             | Inr s3 \<Rightarrow> if current_stack s3 = Some i then pop_stack i s3 else Inr s3)
          else Inr s2)"
        by (simp add: satisfy_atom_shape [OF Some ne True] install_then_ref s2_def)
      have fu: "false_atoms s \<subseteq> false_atoms (final (unsatisfiable_atom ops a ''None supplied'' True s2))"
        using f2 by (auto simp: false_atoms_unsatisfiable)
      show ?thesis
      proof (cases "cp_nonzero ops (cp_new ops a ms)")
        case True
        then show ?thesis using sh f2 by simp
      next
        case False
        show ?thesis
        proof (cases "unsatisfiable_atom ops a ''None supplied'' True s2")
          case (Inl x)
          then show ?thesis using sh fu False by (cases x) simp
        next
          case (Inr s3)
          then show ?thesis using sh fu False false_atoms_pop [of i s3] by simp
        qed
      qed
    qed
  qed
qed

lemma false_atoms_scan_deps:
  "false_atoms (step_state (scan_deps xs t i s)) = false_atoms s"
proof (induction xs arbitrary: s)
  case Nil
  then show ?case by simp
next
  case (Cons x xs)
  show ?case
  proof (cases "atoms s x = None")
    case True
    then show ?thesis by simp
  next
    case False
    show ?thesis
    proof (cases "ref_stack_for_atom x t s")
      case (Inl e)
      then show ?thesis using False false_atoms_ref [of x t s]
        by (cases e) (simp del: not_None_eq)
    next
      case (Inr s')
      then show ?thesis using False false_atoms_ref [of x t s] Cons.IH [of s']
        by (simp del: not_None_eq)
    qed
  qed
qed

lemma false_atoms_iterate_step:
  "false_atoms (outcome_state (iterate_step ops t s)) = false_atoms s"
proof (cases "search_stacks s = []")
  case True
  then show ?thesis by (simp add: iterate_step_cases)
next
  case ne: False
  define i where "i = length (search_stacks s) - 1"
  show ?thesis
  proof (cases "current_stack s = Some i")
    case False
    then show ?thesis using ne by (simp add: iterate_step_cases i_def)
  next
    case cur: True
    show ?thesis
    proof (cases "search_stacks s ! i = []")
      case True
      then show ?thesis using ne cur
        by (cases "butlast (search_stacks s) = []") (simp_all add: iterate_step_cases i_def)
    next
      case nonempty: False
      show ?thesis
      proof (cases "list_ex blocks (search_stacks s ! i)")
        case True
        then show ?thesis using ne cur nonempty by (simp add: iterate_step_cases i_def)
      next
        case nb: False
        define cs where "cs = search_stacks s ! i"
        have nba: "\<not> blocks (last cs)" using nb nonempty by (auto simp: cs_def list_ex_iff)
        show ?thesis
        proof (cases "atoms s (last cs)")
          case None
          then have "iterate_step ops t s = missing_case ops (last cs) t i s"
            using ne cur nonempty nb
            by (intro iterate_step_missing) (simp_all add: i_def cs_def)
          then show ?thesis using missing_case_no_block [OF nba, of ops t i s] by simp
        next
          case (Some e)
          obtain ci rs where e: "e = (ci, rs)" by (cases e)
          define sc where "sc = scan_deps (cp_depends ops (cps s ! ci) @ cp_rdepends ops (cps s ! ci)) cs i s"
          have it: "iterate_step ops t s =
             (case sc of
                Inl (e, s') \<Rightarrow> Raise e (Some cs) s'
              | Inr (missing_atoms, s') \<Rightarrow>
                  if missing_atoms then missing_case ops (last cs) (Some cs) i s'
                  else (case pop_stack i s' of
                          Inl (e, s'') \<Rightarrow> Raise e (Some cs) s''
                        | Inr s'' \<Rightarrow> end_of_pass (Some cs) s''))"
            unfolding sc_def using ne cur nonempty nb Some e
            by (intro iterate_step_tracked [where rs = rs]) (simp_all add: i_def cs_def)
          have si: "false_atoms (step_state sc) = false_atoms s"
            by (simp add: sc_def false_atoms_scan_deps)
          show ?thesis
          proof (cases sc)
            case (Inl x)
            then show ?thesis using it si by (cases x) simp
          next
            case (Inr r)
            obtain m s' where r: "r = (m, s')" by (cases r)
            have s': "false_atoms s' = false_atoms s" using si Inr r by simp
            show ?thesis
            proof (cases m)
              case True
              then have "iterate_step ops t s = missing_case ops (last cs) (Some cs) i s'"
                using it Inr r by simp
              then show ?thesis using s' missing_case_no_block [OF nba, of ops "Some cs" i s']
                by simp
            next
              case False
              have ip: "false_atoms (final (pop_stack i s')) = false_atoms s"
                using s' by (simp add: false_atoms_pop)
              show ?thesis
              proof (cases "pop_stack i s'")
                case (Inl y)
                then show ?thesis using it Inr r False ip by (cases y) simp
              next
                case (Inr s'')
                then show ?thesis using it \<open>sc = Inr r\<close> r False ip
                    end_of_pass_state [of "Some cs" s'']
                  by simp
              qed
            qed
          qed
        qed
      qed
    qed
  qed
qed

lemma false_atoms_resume:
  "false_atoms (outcome_state (resume_after_yield ops t s)) = false_atoms s"
proof (cases "end_of_pass t s")
  case (Yield y t' s')
  then show ?thesis using end_of_pass_state [of t s] by (simp add: resume_after_yield_def)
next
  case (Continue t' s')
  then show ?thesis using end_of_pass_state [of t s]
    by (simp add: resume_after_yield_def false_atoms_iterate_step)
next
  case (Return t' s')
  then show ?thesis using end_of_pass_state [of t s] by (simp add: resume_after_yield_def)
next
  case (Raise e t' s')
  then show ?thesis using end_of_pass_state [of t s] by (simp add: resume_after_yield_def)
qed

lemma false_atoms_add_root: "false_atoms (final (add_root_atom a s)) = false_atoms s"
  by (cases "atoms s a = None") (simp_all add: add_root_atom_def grab_next_stack_def del: not_None_eq)

text \<open>
  Claim C3, as amended. An atom that is in \<open>false_atoms\<close> stays there: no operation of
  the resolver removes an atom from the set.
\<close>

theorem false_atoms_only_grows:
  "false_atoms s \<subseteq> false_atoms (final (add_root_atom a s)) \<and>
   false_atoms s \<subseteq> false_atoms (outcome_state (iterate_step ops t s)) \<and>
   false_atoms s \<subseteq> false_atoms (outcome_state (resume_after_yield ops t s)) \<and>
   false_atoms s \<subseteq> false_atoms (final (satisfy_atom ops a matches s)) \<and>
   false_atoms s \<subseteq> false_atoms (final (unsatisfiable_atom ops a msg permenant s))"
  by (simp add: false_atoms_add_root false_atoms_iterate_step false_atoms_resume
      false_atoms_satisfy false_atoms_unsatisfiable subset_insertI)

lemma s_root_y_eq:
  "s_root_y = \<lparr>search_stacks = [[], [atom_y]], current_stack = Some 1, current_atom = None,
      false_atoms = {}, atoms = Map.empty, pkg_atoms = Map.empty, cps = []\<rparr>"
  by (simp add: s_root_y_def add_root_atom_def init_def grab_next_stack_def)

lemma step_root_y:
  "iterate_step simple_ops None s_root_y =
     Yield (NeedAtom atom_y) None (s_root_y\<lparr>current_atom := Some atom_y\<rparr>)"
  by (simp add: s_root_y_eq iterate_step_def missing_case_def Let_def atom_y_def)

lemma s_yield_y_eq:
  "s_yield_y = \<lparr>search_stacks = [[], [atom_y]], current_stack = Some 1,
      current_atom = Some atom_y,
      false_atoms = {}, atoms = Map.empty, pkg_atoms = Map.empty, cps = []\<rparr>"
  by (simp add: s_yield_y_def step_root_y) (simp add: s_root_y_eq)

lemma s_failed_y_eq:
  "s_failed_y = \<lparr>search_stacks = [[], [atom_y]], current_stack = Some 1,
      current_atom = Some atom_y,
      false_atoms = {atom_y}, atoms = Map.empty, pkg_atoms = Map.empty, cps = []\<rparr>"
  by (simp add: s_failed_y_def s_yield_y_eq unsatisfiable_atom_def Let_def)

text \<open>
  Claim C3, as stated, fails: \<open>atom_y\<close> is added to \<open>false_atoms\<close> by the protocol
  with \<^verbatim>\<open>permenant=True\<close>, and the resumed generator yields it again.
\<close>

theorem false_atom_yielded_again:
  "atom_y \<notin> false_atoms s_yield_y \<and>
   s_failed_y = final (unsatisfiable_atom simple_ops atom_y ''lookup failed'' True s_yield_y) \<and>
   atom_y \<in> false_atoms s_failed_y \<and>
   outcome_yield (resume_after_yield simple_ops None s_failed_y) = Some (NeedAtom atom_y)"
proof -
  have "end_of_pass None s_failed_y = Continue None s_failed_y"
    by (simp add: s_failed_y_eq end_of_pass_def atom_y_def)
  moreover have "outcome_yield (iterate_step simple_ops None s_failed_y) = Some (NeedAtom atom_y)"
    by (simp add: s_failed_y_eq iterate_step_def missing_case_def Let_def atom_y_def)
  ultimately have "outcome_yield (resume_after_yield simple_ops None s_failed_y) =
      Some (NeedAtom atom_y)"
    by (simp add: resume_after_yield_def)
  moreover have "atom_y \<notin> false_atoms s_yield_y" "atom_y \<in> false_atoms s_failed_y"
    by (simp_all add: s_yield_y_eq s_failed_y_eq)
  ultimately show ?thesis by (simp add: s_failed_y_def)
qed

text \<open>
  Claim C2, as stated, fails: \<open>atom_y\<close> is not in \<open>false_atoms\<close>; after
  \<^verbatim>\<open>satisfy_atom\<close> with no candidates it is.
\<close>

theorem satisfy_empty_adds_false_atom:
  "atom_y \<notin> false_atoms s_yield_y \<and>
   \<not> cp_nonzero simple_ops (cp_new simple_ops atom_y []) \<and>
   atom_y \<in> false_atoms (final (satisfy_atom simple_ops atom_y [] s_yield_y))"
proof -
  have "current_stack s_yield_y = Some 1" "search_stacks s_yield_y ! 1 \<noteq> []"
    "last (search_stacks s_yield_y ! 1) = atom_y" "current_atom s_yield_y = Some atom_y"
    by (simp_all add: s_yield_y_eq)
  moreover have e: "\<not> cp_nonzero simple_ops (cp_new simple_ops atom_y [])"
    by (simp add: simple_ops_def)
  ultimately have "false_atoms (final (satisfy_atom simple_ops atom_y [] s_yield_y)) =
      insert atom_y (false_atoms s_yield_y)"
    by (rule false_atoms_satisfy_empty)
  then show ?thesis using e by (simp add: s_yield_y_eq)
qed

text \<open>
  Claim C2, as amended. When \<^verbatim>\<open>satisfy_atom\<close> is called for the atom on top of the
  current stack, the atom is the current focus and the choice point built from the
  candidates is empty, then after the call, whether it returns or raises,
  \<open>false_atoms\<close> is the set before the call with the atom added.
\<close>

theorem satisfy_empty_is_permanent:
  assumes "current_stack s = Some i" "search_stacks s ! i \<noteq> []" "last (search_stacks s ! i) = a"
    and "current_atom s = Some a" "\<not> cp_nonzero ops (cp_new ops a ms)"
  shows "false_atoms (final (satisfy_atom ops a ms s)) = insert a (false_atoms s)"
  using assms by (rule false_atoms_satisfy_empty)

text \<open>\<open>atom_p\<close> is satisfied again, now with no candidates.\<close>

theorem satisfy_empty_is_permanent_witness:
  "current_stack s_p_chosen = Some 1 \<and> last (search_stacks s_p_chosen ! 1) = atom_p \<and>
   current_atom s_p_chosen = Some atom_p \<and>
   \<not> cp_nonzero simple_ops (cp_new simple_ops atom_p []) \<and>
   false_atoms (final (satisfy_atom simple_ops atom_p [] s_p_chosen)) = {atom_p}"
proof -
  have h1: "current_stack s_p_chosen = Some 1" by (simp add: s_p_chosen_eq)
  have h2: "search_stacks s_p_chosen ! 1 \<noteq> []" by (simp add: s_p_chosen_eq)
  have h3: "last (search_stacks s_p_chosen ! 1) = atom_p" by (simp add: s_p_chosen_eq)
  have h4: "current_atom s_p_chosen = Some atom_p" by (simp add: s_p_chosen_eq)
  have h5: "\<not> cp_nonzero simple_ops (cp_new simple_ops atom_p [])" by (simp add: simple_ops_def)
  have "false_atoms s_p_chosen = {}" by (simp add: s_p_chosen_eq)
  then show ?thesis
    using satisfy_empty_is_permanent [OF h1 h2 h3 h4 h5] h1 h3 h4 h5 by simp
qed

subsection \<open>Blockers stay on top\<close>

lemma top_only_butlast: "top_only st \<Longrightarrow> top_only (butlast st)"
  by (auto simp: top_only_def list_ex_iff dest: in_set_butlastD)

lemma top_only_no_blocks: "\<not> list_ex blocks st \<Longrightarrow> top_only st"
  by (auto simp: top_only_def list_ex_iff dest: in_set_butlastD)

lemma top_only_snoc: "\<not> list_ex blocks st \<Longrightarrow> top_only (st @ [x])"
  by (simp add: top_only_def)

lemma refs_okD: "refs_ok s \<Longrightarrow> atoms s a = Some (ci, refs) \<Longrightarrow> list_all top_only refs"
  unfolding refs_ok_def by blast

lemma inv_fields:
  "search_stacks s' = search_stacks s \<Longrightarrow> atoms s' = atoms s \<Longrightarrow>
   current_stack s' = current_stack s \<Longrightarrow> stack_inv s' = stack_inv s"
  by (simp add: stack_inv_def refs_ok_def cur_ok_def)

lemma inv_grab: "stack_inv s \<Longrightarrow> stack_inv (final (grab_next_stack s))"
  by (cases "search_stacks s = []") (simp_all add: grab_next_stack_def stack_inv_def refs_ok_def cur_ok_def)

lemma list_all_update: "list_all P xs \<Longrightarrow> P v \<Longrightarrow> list_all P (xs[i := v])"
  by (auto simp: list_all_iff dest: set_update_subset_insert [THEN subsetD])

lemma inv_pop: "stack_inv s \<Longrightarrow> i < length (search_stacks s) \<Longrightarrow> stack_inv (final (pop_stack i s))"
proof (cases "search_stacks s ! i = []")
  case True
  assume "stack_inv s"
  then show ?thesis using True by (simp add: pop_stack_def)
next
  case False
  assume i: "stack_inv s" and l: "i < length (search_stacks s)"
  then have "top_only (search_stacks s ! i)"
    by (simp add: stack_inv_def list_all_length)
  then have "list_all top_only ((search_stacks s)[i := butlast (search_stacks s ! i)])"
    using i by (intro list_all_update top_only_butlast) (simp_all add: stack_inv_def)
  then show ?thesis using False i
    by (simp add: pop_stack_def stack_inv_def refs_ok_def cur_ok_def)
qed

lemma inv_ref: "stack_inv s \<Longrightarrow> top_only st \<Longrightarrow> stack_inv (final (ref_stack_for_atom a st s))"
proof (cases "atoms s a")
  case None
  assume "stack_inv s"
  then show ?thesis using None by (simp add: ref_stack_cases)
next
  case (Some e)
  assume i: "stack_inv s" and t: "top_only st"
  obtain c refs where e: "e = (c, refs)" by (cases e)
  show ?thesis
  proof (cases "st \<in> set refs")
    case True
    then show ?thesis using i Some e by (simp add: ref_stack_cases)
  next
    case False
    have "list_all top_only refs" using i Some e by (auto simp: stack_inv_def dest: refs_okD)
    then have "refs_ok (s\<lparr>atoms := (atoms s)(a \<mapsto> (c, refs @ [st]))\<rparr>)"
      using i t unfolding refs_ok_def stack_inv_def by auto
    then show ?thesis using False i Some e
      by (simp add: ref_stack_cases(3) stack_inv_def cur_ok_def)
  qed
qed

lemma inv_deref: "stack_inv s \<Longrightarrow> stack_inv (final (deref_stack_for_atom ops a st s))"
proof (cases "atoms s a")
  case None
  assume "stack_inv s"
  then show ?thesis using None by (simp add: deref_cases)
next
  case (Some e)
  assume i: "stack_inv s"
  obtain c refs where e: "e = (c, refs)" by (cases e)
  have r: "list_all top_only refs" using i Some e by (auto simp: stack_inv_def dest: refs_okD)
  show ?thesis
  proof (cases "filter (\<lambda>x. take (length st) x \<noteq> st) refs = []")
    case True
    have "refs_ok (s\<lparr>pkg_atoms := drop_key ops a s, atoms := (atoms s)(a := None)\<rparr>)"
      using i unfolding refs_ok_def stack_inv_def by (auto split: if_splits)
    then show ?thesis using True i Some e
      by (simp add: deref_cases(3) stack_inv_def cur_ok_def)
  next
    case False
    have "list_all top_only (filter (\<lambda>x. take (length st) x \<noteq> st) refs)"
      using r by (simp add: list_all_iff)
    then have "refs_ok (s\<lparr>atoms := (atoms s)(a \<mapsto> (c, filter (\<lambda>x. take (length st) x \<noteq> st) refs))\<rparr>)"
      using i unfolding refs_ok_def stack_inv_def by auto
    then show ?thesis using False i Some e
      by (simp add: deref_cases(2) stack_inv_def cur_ok_def)
  qed
qed

lemma inv_deref_released: "stack_inv s \<Longrightarrow> stack_inv (final (deref_released ops xs t s))"
proof (induction xs arbitrary: s)
  case Nil
  then show ?case by simp
next
  case (Cons x xs)
  show ?case
  proof (cases "atoms s x = None")
    case True
    then show ?thesis using Cons by simp
  next
    case False
    show ?thesis
    proof (cases "deref_stack_for_atom ops x t s")
      case (Inl e)
      then show ?thesis using False inv_deref [OF Cons.prems, of ops x t]
        by (cases e) (simp del: not_None_eq)
    next
      case (Inr s')
      then show ?thesis using False inv_deref [OF Cons.prems, of ops x t] Cons.IH [of s']
        by (simp del: not_None_eq)
    qed
  qed
qed

lemma inv_after_release:
  "stack_inv s \<Longrightarrow> top_only t \<Longrightarrow> stack_inv (snd (after_release ops c' wc t s))"
  by (simp add: after_release_def stack_inv_def refs_ok_def cur_ok_def less_Suc_eq)

lemma inv_unsat_step:
  assumes "stack_inv s" "top_only stack"
  shows "stack_inv (step_state (unsat_step ops stack s))"
proof (cases "length stack < 2")
  case True
  then show ?thesis using assms by (simp add: unsat_step_def)
next
  case False
  show ?thesis
  proof (cases "atoms s (stack ! (length stack - 2))")
    case None
    then show ?thesis using False assms by (simp add: unsat_step_def)
  next
    case (Some e)
    obtain ci rs where e: "e = (ci, rs)" by (cases e)
    obtain wc rel c' where rp: "reduce_parent ops s (cps s ! ci) (last stack) = (wc, rel, c')"
      by (cases "reduce_parent ops s (cps s ! ci) (last stack)") auto
    define s1 where "s1 = s\<lparr>cps := (cps s)[ci := c']\<rparr>"
    have "stack_inv s1" using assms(1) by (simp add: s1_def stack_inv_def refs_ok_def cur_ok_def)
    then have fa: "stack_inv (final (deref_released ops rel (butlast stack) s1))"
      by (rule inv_deref_released)
    have us: "unsat_step ops stack s =
        (case deref_released ops rel (butlast stack) s1 of
           Inl e \<Rightarrow> Inl e
         | Inr s2 \<Rightarrow> Inr (after_release ops c' wc (butlast stack) s2))"
      using False Some e rp by (simp add: unsat_step_def s1_def)
    show ?thesis
    proof (cases "deref_released ops rel (butlast stack) s1")
      case (Inl x)
      then show ?thesis using fa us by (cases x) simp
    next
      case (Inr s2)
      then have "stack_inv s2" using fa by simp
      then have "stack_inv (snd (after_release ops c' wc (butlast stack) s2))"
        using assms(2) by (intro inv_after_release top_only_butlast)
      then show ?thesis using Inr us
        by (cases "after_release ops c' wc (butlast stack) s2") simp
    qed
  qed
qed

lemma inv_unsat_loop:
  "stack_inv s \<Longrightarrow> list_all top_only q \<Longrightarrow> stack_inv (step_state (unsat_loop ops a msg q bail s))"
proof (induction ops a msg q bail s rule: unsat_loop.induct)
  case (1 ops a msg bail s)
  then show ?case by simp
next
  case (2 ops a msg stack q bail s)
  have st: "top_only stack" and q: "list_all top_only q" using "2.prems"(2) by simp_all
  have i1: "stack_inv (step_state (unsat_step ops stack s))"
    using "2.prems"(1) st by (rule inv_unsat_step)
  show ?case
  proof (cases "unsat_step ops stack s")
    case (Inl e)
    then show ?thesis using i1 by (cases e) simp
  next
    case (Inr r)
    have "stack_inv (snd r)" using i1 Inr by (cases r) simp
    moreover have "list_all top_only (if fst r then q @ [butlast stack] else q)"
      using q st by (simp add: top_only_butlast)
    ultimately show ?thesis using "2.IH" [OF Inr] Inr by simp
  qed
qed

lemma inv_unsatisfiable:
  assumes "stack_inv s"
  shows "stack_inv (final (unsatisfiable_atom ops a msg p s))"
proof (cases "current_atom s = Some a")
  case False
  then show ?thesis using assms by (simp add: unsatisfiable_cases)
next
  case True
  define s1 where "s1 = (if p then s\<lparr>false_atoms := insert a (false_atoms s)\<rparr> else s)"
  have i1: "stack_inv s1" using assms by (simp add: s1_def stack_inv_def refs_ok_def cur_ok_def)
  show ?thesis
  proof (cases "atoms s a")
    case None
    then show ?thesis using True i1 by (simp add: unsatisfiable_cases(2) s1_def)
  next
    case (Some e)
    obtain c refs where e: "e = (c, refs)" by (cases e)
    have "list_all top_only refs" using assms Some e by (auto simp: stack_inv_def dest: refs_okD)
    then have fl: "stack_inv (step_state (unsat_loop ops a msg refs None s1))"
      using i1 by (intro inv_unsat_loop)
    have ua: "unsatisfiable_atom ops a msg p s =
       (case unsat_loop ops a msg refs None s1 of
          Inl e \<Rightarrow> Inl e
        | Inr (bail, s2) \<Rightarrow>
            (case grab_next_stack s2 of
               Inl e \<Rightarrow> Inl e
             | Inr s3 \<Rightarrow> (case bail of Some b \<Rightarrow> Inl (b, s3) | None \<Rightarrow> Inr s3)))"
      using True Some e by (simp add: unsatisfiable_cases(3) s1_def)
    show ?thesis
    proof (cases "unsat_loop ops a msg refs None s1")
      case (Inl x)
      then show ?thesis using fl ua by (cases x) simp
    next
      case (Inr r)
      obtain bail s2 where r: "r = (bail, s2)" by (cases r)
      have "stack_inv s2" using fl Inr r by simp
      then have g: "stack_inv (final (grab_next_stack s2))" by (rule inv_grab)
      show ?thesis
      proof (cases "grab_next_stack s2")
        case (Inl y)
        then show ?thesis using g ua Inr r by (cases y) simp
      next
        case (Inr s3)
        then show ?thesis using g ua \<open>unsat_loop ops a msg refs None s1 = Inr r\<close> r
          by (cases bail) simp_all
      qed
    qed
  qed
qed

lemma inv_add_root: "stack_inv s \<Longrightarrow> stack_inv (final (add_root_atom a s))"
  by (cases "atoms s a = None")
     (simp_all add: add_root_atom_def grab_next_stack_def stack_inv_def refs_ok_def cur_ok_def
        top_only_def del: not_None_eq)

lemma inv_satisfy:
  assumes "stack_inv s"
  shows "stack_inv (final (satisfy_atom ops a ms s))"
proof (cases "current_stack s")
  case None
  then show ?thesis using assms by (simp add: satisfy_atom_fail)
next
  case (Some i)
  have il: "i < length (search_stacks s)" using assms Some by (simp add: stack_inv_def cur_ok_def)
  show ?thesis
  proof (cases "search_stacks s ! i = []")
    case True
    then show ?thesis using Some assms by (simp add: satisfy_atom_fail)
  next
    case ne: False
    show ?thesis
    proof (cases "last (search_stacks s ! i) = a")
      case False
      then show ?thesis using Some ne assms by (simp add: satisfy_atom_fail)
    next
      case True
      define s2 where "s2 = (install_choice_point ops a ms s)
            \<lparr>atoms := (atoms (install_choice_point ops a ms s))(a \<mapsto> (length (cps s), [search_stacks s ! i]))\<rparr>"
      have t: "top_only (search_stacks s ! i)"
        using assms il by (simp add: stack_inv_def list_all_length)
      have i2: "stack_inv s2"
        using assms t unfolding s2_def install_choice_point_def stack_inv_def refs_ok_def cur_ok_def
        by auto
      have sh: "satisfy_atom ops a ms s =
          (if \<not> cp_nonzero ops (cp_new ops a ms) then
            (case unsatisfiable_atom ops a ''None supplied'' True s2 of
               Inl e \<Rightarrow> Inl e
             | Inr s3 \<Rightarrow> if current_stack s3 = Some i then pop_stack i s3 else Inr s3)
          else Inr s2)"
        by (simp add: satisfy_atom_shape [OF Some ne True] install_then_ref s2_def)
      have fu: "stack_inv (final (unsatisfiable_atom ops a ''None supplied'' True s2))"
        using i2 by (rule inv_unsatisfiable)
      show ?thesis
      proof (cases "cp_nonzero ops (cp_new ops a ms)")
        case True
        then show ?thesis using sh i2 by simp
      next
        case False
        show ?thesis
        proof (cases "unsatisfiable_atom ops a ''None supplied'' True s2")
          case (Inl x)
          then show ?thesis using sh fu False by (cases x) simp
        next
          case (Inr s3)
          have i3: "stack_inv s3" using fu Inr by simp
          show ?thesis
          proof (cases "current_stack s3 = Some i")
            case True
            then have "i < length (search_stacks s3)" using i3 by (simp add: stack_inv_def cur_ok_def)
            then have "stack_inv (final (pop_stack i s3))" using i3 by (intro inv_pop)
            then show ?thesis using sh False Inr True by simp
          next
            case nc: False
            then show ?thesis using sh False Inr i3 by simp
          qed
        qed
      qed
    qed
  qed
qed

lemma scan_deps_inv:
  "stack_inv s \<Longrightarrow> i < length (search_stacks s) \<Longrightarrow> \<not> list_ex blocks (search_stacks s ! i) \<Longrightarrow>
   top_only t \<Longrightarrow>
   stack_inv (step_state (scan_deps xs t i s)) \<and>
   length (search_stacks (step_state (scan_deps xs t i s))) = length (search_stacks s)"
proof (induction xs arbitrary: s)
  case Nil
  then show ?case by simp
next
  case (Cons x xs)
  show ?case
  proof (cases "atoms s x = None")
    case True
    have "list_all top_only ((search_stacks s)[i := search_stacks s ! i @ [x]])"
      using Cons.prems by (intro list_all_update top_only_snoc) (simp_all add: stack_inv_def)
    then show ?thesis using True Cons.prems
      by (simp add: stack_inv_def refs_ok_def cur_ok_def)
  next
    case False
    have i1: "stack_inv (final (ref_stack_for_atom x t s))"
      using Cons.prems by (intro inv_ref)
    have st: "search_stacks (final (ref_stack_for_atom x t s)) = search_stacks s"
      by (cases "atoms s x") (auto simp: ref_stack_for_atom_def)
    show ?thesis
    proof (cases "ref_stack_for_atom x t s")
      case (Inl e)
      then show ?thesis using False i1 st by (cases e) (simp del: not_None_eq)
    next
      case (Inr s')
      have "stack_inv s'" "search_stacks s' = search_stacks s" using i1 st Inr by simp_all
      then show ?thesis using False Inr Cons.IH [of s'] Cons.prems
        by (simp del: not_None_eq)
    qed
  qed
qed

lemma inv_current_atom: "stack_inv (s\<lparr>current_atom := x\<rparr>) = stack_inv s"
  by (simp add: stack_inv_def refs_ok_def cur_ok_def)

lemma list_all_butlast: "list_all P xs \<Longrightarrow> list_all P (butlast xs)"
  by (auto simp: list_all_iff dest: in_set_butlastD)

lemma inv_iterate_step:
  assumes "stack_inv s" "local_ok t"
  shows "stack_inv (outcome_state (iterate_step ops t s)) \<and>
         local_ok (outcome_local (iterate_step ops t s))"
proof (cases "search_stacks s = []")
  case True
  then show ?thesis using assms by (simp add: iterate_step_cases)
next
  case ne: False
  define i where "i = length (search_stacks s) - 1"
  have il: "i < length (search_stacks s)" using ne by (simp add: i_def)
  show ?thesis
  proof (cases "current_stack s = Some i")
    case False
    then show ?thesis using ne assms by (simp add: iterate_step_cases i_def)
  next
    case cur: True
    show ?thesis
    proof (cases "search_stacks s ! i = []")
      case True
      show ?thesis
      proof (cases "butlast (search_stacks s) = []")
        case b: True
        have "iterate_step ops t s = Return t (s\<lparr>search_stacks := [], current_stack := None\<rparr>)"
          using ne cur True b by (simp add: iterate_step_cases i_def)
        then show ?thesis using assms by (simp add: stack_inv_def refs_ok_def cur_ok_def)
      next
        case b: False
        have "iterate_step ops t s = Continue t (s\<lparr>search_stacks := butlast (search_stacks s),
                      current_stack := Some (length (butlast (search_stacks s)) - 1)\<rparr>)"
          using ne cur True b by (simp add: iterate_step_cases i_def)
        moreover have "list_all top_only (butlast (search_stacks s))"
          using assms by (simp add: stack_inv_def list_all_butlast)
        moreover have "length (butlast (search_stacks s)) - 1 < length (butlast (search_stacks s))"
          using b by (cases "butlast (search_stacks s)") simp_all
        ultimately show ?thesis using assms by (simp add: stack_inv_def refs_ok_def cur_ok_def)
      qed
    next
      case nonempty: False
      show ?thesis
      proof (cases "list_ex blocks (search_stacks s ! i)")
        case True
        then show ?thesis using ne cur nonempty assms by (simp add: iterate_step_cases i_def)
      next
        case nb: False
        define cs where "cs = search_stacks s ! i"
        have nba: "\<not> blocks (last cs)" using nb nonempty by (auto simp: cs_def list_ex_iff)
        have tc: "top_only cs" using nb by (simp add: cs_def top_only_no_blocks)
        show ?thesis
        proof (cases "atoms s (last cs)")
          case None
          then have "iterate_step ops t s = missing_case ops (last cs) t i s"
            using ne cur nonempty nb
            by (intro iterate_step_missing) (simp_all add: i_def cs_def)
          then show ?thesis using assms missing_case_no_block [OF nba, of ops t i s]
            by (simp add: inv_current_atom)
        next
          case (Some e)
          obtain ci rs where e: "e = (ci, rs)" by (cases e)
          define sc where "sc = scan_deps (cp_depends ops (cps s ! ci) @ cp_rdepends ops (cps s ! ci)) cs i s"
          have it: "iterate_step ops t s =
             (case sc of
                Inl (e, s') \<Rightarrow> Raise e (Some cs) s'
              | Inr (missing_atoms, s') \<Rightarrow>
                  if missing_atoms then missing_case ops (last cs) (Some cs) i s'
                  else (case pop_stack i s' of
                          Inl (e, s'') \<Rightarrow> Raise e (Some cs) s''
                        | Inr s'' \<Rightarrow> end_of_pass (Some cs) s''))"
            unfolding sc_def using ne cur nonempty nb Some e
            by (intro iterate_step_tracked [where rs = rs]) (simp_all add: i_def cs_def)
          have si: "stack_inv (step_state sc)" "length (search_stacks (step_state sc)) = length (search_stacks s)"
            using scan_deps_inv [OF assms(1) il, of cs] nb tc by (simp_all add: sc_def cs_def)
          have lo: "local_ok (Some cs)" using tc by (simp add: local_ok_def)
          show ?thesis
          proof (cases sc)
            case (Inl x)
            then show ?thesis using it si lo by (cases x) simp
          next
            case (Inr r)
            obtain m s' where r: "r = (m, s')" by (cases r)
            have s': "stack_inv s'" "i < length (search_stacks s')" using si Inr r il by simp_all
            show ?thesis
            proof (cases m)
              case True
              then have "iterate_step ops t s = missing_case ops (last cs) (Some cs) i s'"
                using it Inr r by simp
              then show ?thesis using s' lo missing_case_no_block [OF nba, of ops "Some cs" i s']
                by (simp add: inv_current_atom)
            next
              case False
              have ip: "stack_inv (final (pop_stack i s'))" using s' by (intro inv_pop)
              show ?thesis
              proof (cases "pop_stack i s'")
                case (Inl y)
                then show ?thesis using it Inr r False ip lo
                  by (cases y) simp
              next
                case (Inr s'')
                then show ?thesis using it \<open>sc = Inr r\<close> r False ip lo
                    end_of_pass_state [of "Some cs" s'']
                  by simp
              qed
            qed
          qed
        qed
      qed
    qed
  qed
qed

lemma inv_resume:
  assumes "stack_inv s" "local_ok t"
  shows "stack_inv (outcome_state (resume_after_yield ops t s)) \<and>
         local_ok (outcome_local (resume_after_yield ops t s))"
proof (cases "end_of_pass t s")
  case (Yield y t' s')
  then show ?thesis using end_of_pass_state [of t s] assms by (simp add: resume_after_yield_def)
next
  case (Continue t' s')
  then show ?thesis using end_of_pass_state [of t s] assms inv_iterate_step [of s t ops]
    by (simp add: resume_after_yield_def)
next
  case (Return t' s')
  then show ?thesis using end_of_pass_state [of t s] assms by (simp add: resume_after_yield_def)
next
  case (Raise e t' s')
  then show ?thesis using end_of_pass_state [of t s] assms by (simp add: resume_after_yield_def)
qed

lemma inv_init: "stack_inv init"
  by (simp add: init_def stack_inv_def refs_ok_def cur_ok_def top_only_def)

lemma reachable_inv: "reachable ops t s \<Longrightarrow> stack_inv s \<and> local_ok t"
proof (induction rule: reachable.induct)
  case r_init
  then show ?case by (simp add: inv_init local_ok_def)
next
  case (r_add_root t s a)
  then show ?case by (simp add: inv_add_root)
next
  case (r_step t s)
  then show ?case using inv_iterate_step [of s t ops] by simp
next
  case (r_resume t s)
  then show ?case using inv_resume [of s t ops] by simp
next
  case (r_restart t s)
  then show ?case by (simp add: local_ok_def)
next
  case (r_satisfy t s a matches)
  then show ?case by (simp add: inv_satisfy)
next
  case (r_unsatisfiable t s a msg permenant)
  then show ?case by (simp add: inv_unsatisfiable)
qed

text \<open>
  Claim C9. In every resolver reachable through \<^verbatim>\<open>add_root_atom\<close>, passes of the
  generator, \<^verbatim>\<open>satisfy_atom\<close> and \<^verbatim>\<open>unsatisfiable_atom\<close>, no search stack holds a
  blocking atom below its top.
\<close>

theorem no_blocker_mid_stack:
  "reachable ops t s \<Longrightarrow>
   list_all (\<lambda>stack. \<not> list_ex blocks (butlast stack)) (search_stacks s)"
  using reachable_inv [of ops t s] by (simp add: stack_inv_def top_only_def [abs_def])

text \<open>A reachable resolver with a blocker on top of a stack.\<close>

theorem no_blocker_mid_stack_witness:
  "reachable simple_ops (Some [atom_r]) s_blocker_pushed \<and>
   search_stacks s_blocker_pushed = [[], [atom_r, atom_b]] \<and> blocks atom_b \<and>
   list_all (\<lambda>stack. \<not> list_ex blocks (butlast stack)) (search_stacks s_blocker_pushed)"
proof -
  have a: "final (add_root_atom atom_r init) =
      \<lparr>search_stacks = [[], [atom_r]], current_stack = Some 1, current_atom = None,
       false_atoms = {}, atoms = Map.empty, pkg_atoms = Map.empty, cps = ([] :: simple_cp list)\<rparr>"
    by (simp add: add_root_atom_def init_def grab_next_stack_def)
  have b: "iterate_step simple_ops None (final (add_root_atom atom_r init)) =
      Yield (NeedAtom atom_r) None
      \<lparr>search_stacks = [[], [atom_r]], current_stack = Some 1, current_atom = Some atom_r,
       false_atoms = {}, atoms = Map.empty, pkg_atoms = Map.empty, cps = ([] :: simple_cp list)\<rparr>"
    unfolding a by (simp add: iterate_step_def missing_case_def Let_def atom_r_def)
  have c: "final (satisfy_atom simple_ops atom_r [pkg_r_blocking]
         (outcome_state (iterate_step simple_ops None (final (add_root_atom atom_r init))))) =
      \<lparr>search_stacks = [[], [atom_r]], current_stack = Some 1, current_atom = Some atom_r,
       false_atoms = {}, atoms = [atom_r \<mapsto> (0, [[atom_r]])], pkg_atoms = [''dev/r'' \<mapsto> [0]],
       cps = [(atom_r, [pkg_r_blocking])]\<rparr>"
    unfolding b
    by (simp add: satisfy_atom_def install_choice_point_def ref_stack_for_atom_def simple_ops_def
        atom_r_def)
  have d: "iterate_step simple_ops None (final (satisfy_atom simple_ops atom_r [pkg_r_blocking]
         (outcome_state (iterate_step simple_ops None (final (add_root_atom atom_r init)))))) =
      Yield (NeedAtom atom_b) (Some [atom_r])
      \<lparr>search_stacks = [[], [atom_r, atom_b]], current_stack = Some 1, current_atom = Some atom_b,
       false_atoms = {}, atoms = [atom_r \<mapsto> (0, [[atom_r]])], pkg_atoms = [''dev/r'' \<mapsto> [0]],
       cps = [(atom_r, [pkg_r_blocking])]\<rparr>"
    unfolding c
    by (simp add: iterate_step_def missing_case_def Let_def simple_ops_def pkg_r_blocking_def
        atom_r_def atom_b_def)
  have r0: "reachable simple_ops None (init :: simple_cp resolver)" by (rule r_init)
  have r1: "reachable simple_ops None (final (add_root_atom atom_r init) :: simple_cp resolver)"
    using r0 by (rule r_add_root)
  have r2: "reachable simple_ops None
      (outcome_state (iterate_step simple_ops None (final (add_root_atom atom_r init))))"
    using r_step [OF r1] by (simp add: b)
  have r3: "reachable simple_ops None (final (satisfy_atom simple_ops atom_r [pkg_r_blocking]
         (outcome_state (iterate_step simple_ops None (final (add_root_atom atom_r init))))))"
    using r2 by (rule r_satisfy)
  have r4: "reachable simple_ops (Some [atom_r]) s_blocker_pushed"
    using r_step [OF r3] unfolding s_blocker_pushed_def by (simp add: d)
  have st: "search_stacks s_blocker_pushed = [[], [atom_r, atom_b]]"
    unfolding s_blocker_pushed_def d by simp
  show ?thesis using r4 st no_blocker_mid_stack [OF r4] by (simp add: atom_b_def)
qed

text \<open>The branch for blockers (lines 93 to 113) is never entered: line 56 raises first.\<close>

lemma blocker_branch_unreachable:
  assumes "search_stacks s \<noteq> []" "current_stack s = Some (length (search_stacks s) - 1)"
    and "search_stacks s ! (length (search_stacks s) - 1) \<noteq> []"
    and "blocks (last (search_stacks s ! (length (search_stacks s) - 1)))"
  shows "iterate_step ops t s = Raise AssertionError t s"
proof -
  have "list_ex blocks (search_stacks s ! (length (search_stacks s) - 1))"
    using assms(3,4) by (auto simp: list_ex_iff intro: bexI [where x = "last (search_stacks s ! (length (search_stacks s) - 1))"])
  then show ?thesis using assms(1-3) by (simp add: iterate_step_cases)
qed

lemma s_blocker_eq:
  "s_blocker = \<lparr>search_stacks = [[], [atom_p], [atom_b]], current_stack = Some 2,
      current_atom = Some atom_p, false_atoms = {},
      atoms = [atom_p \<mapsto> (0, [[atom_p]])], pkg_atoms = [''dev/p'' \<mapsto> [0]],
      cps = [(atom_p, [pkg_p1])]\<rparr>"
  by (simp add: s_blocker_def s_p_chosen_eq add_root_atom_def grab_next_stack_def atom_p_def atom_b_def)

text \<open>
  Claim C4. The focus atom \<open>atom_b\<close> blocks, and the live choice point under its key
  has a current package that it matches: the unsatisfiability protocol should run and the
  atom should be popped. The pass raises AssertionError at line 56 and leaves the resolver
  unchanged.
\<close>

theorem blocker_on_top_asserts:
  "blocks atom_b \<and>
   current_stack s_blocker = Some 2 \<and> last (search_stacks s_blocker ! 2) = atom_b \<and>
   pkg_atoms s_blocker (key atom_b) = Some [0] \<and>
   cp_nonzero simple_ops (cps s_blocker ! 0) \<and>
   atom_match simple_ops atom_b (cp_current_pkg simple_ops (cps s_blocker ! 0)) \<and>
   iterate_step simple_ops None s_blocker = Raise AssertionError None s_blocker"
  by (simp add: s_blocker_eq iterate_step_def Let_def atom_b_def simple_ops_def pkg_p1_def)

subsection \<open>Cycles\<close>

text \<open>
  The scan pushes the first dependency without an entry; the dependencies before it only
  get the current stack registered, which leaves the set of tracked atoms as it is.
\<close>

lemma ref_stack_keeps:
  "(atoms (final (ref_stack_for_atom a st s)) y = None) = (atoms s y = None) \<and>
   search_stacks (final (ref_stack_for_atom a st s)) = search_stacks s \<and>
   current_stack (final (ref_stack_for_atom a st s)) = current_stack s"
proof (cases "atoms s a")
  case None
  then show ?thesis by (simp add: ref_stack_cases)
next
  case (Some e)
  obtain c refs where "e = (c, refs)" by (cases e)
  with Some show ?thesis by (cases "st \<in> set refs") (simp_all add: ref_stack_cases)
qed

lemma ref_stack_returns:
  "atoms s a \<noteq> None \<Longrightarrow> ref_stack_for_atom a st s = Inr (final (ref_stack_for_atom a st s))"
proof -
  assume "atoms s a \<noteq> None"
  then obtain c refs where s: "atoms s a = Some (c, refs)" by auto
  show ?thesis by (cases "st \<in> set refs") (simp_all add: ref_stack_cases(2,3) [OF s])
qed

lemma scan_deps_push:
  "find (\<lambda>d. atoms s d = None) deps = Some x \<Longrightarrow>
   \<exists>s'. scan_deps deps t i s = Inr (True, s') \<and>
        search_stacks s' = (search_stacks s)[i := search_stacks s ! i @ [x]] \<and>
        current_atom s' = Some x \<and> current_stack s' = current_stack s"
proof (induction deps arbitrary: s)
  case Nil
  then show ?case by simp
next
  case (Cons d ds)
  show ?case
  proof (cases "atoms s d = None")
    case True
    then have "x = d" using Cons.prems by simp
    then show ?thesis using True by simp
  next
    case False
    define s1 where "s1 = final (ref_stack_for_atom d t s)"
    have r: "ref_stack_for_atom d t s = Inr s1"
      using ref_stack_returns [OF False] by (simp add: s1_def)
    have k: "search_stacks s1 = search_stacks s" "current_stack s1 = current_stack s"
      using ref_stack_keeps [of d t s] by (simp_all add: s1_def)
    have "(\<lambda>y. atoms s1 y = None) = (\<lambda>y. atoms s y = None)"
      using ref_stack_keeps [of d t s] by (simp add: s1_def fun_eq_iff del: not_None_eq)
    then have "find (\<lambda>y. atoms s1 y = None) ds = Some x"
      using Cons.prems False by (simp del: not_None_eq)
    then obtain s' where s': "scan_deps ds t i s1 = Inr (True, s')"
      "search_stacks s' = (search_stacks s1)[i := search_stacks s1 ! i @ [x]]"
      "current_atom s' = Some x" "current_stack s' = current_stack s1"
      using Cons.IH [of s1] by blast
    have "scan_deps (d # ds) t i s = Inr (True, s')"
      using False r s'(1) by (simp del: not_None_eq)
    then show ?thesis using s'(2,3,4) k by simp
  qed
qed

lemma cycle_pushed_lemma:
  assumes "search_stacks s \<noteq> []"
    and "current_stack s = Some (length (search_stacks s) - 1)"
    and "cs = last (search_stacks s)"
    and "cs \<noteq> []" and "\<not> list_ex blocks cs"
    and "atoms s (last cs) = Some (ci, rs)"
    and "find (\<lambda>d. atoms s d = None)
           (cp_depends ops (cps s ! ci) @ cp_rdepends ops (cps s ! ci)) = Some x"
    and "x \<in> set cs"
  shows "outcome_yield (iterate_step ops t s) = Some (AndRestriction x (last cs)) \<and>
         search_stacks (outcome_state (iterate_step ops t s)) =
           (search_stacks s)[length (search_stacks s) - 1 := cs @ [x]] \<and>
         current_atom (outcome_state (iterate_step ops t s)) = Some x"
proof -
  define i where "i = length (search_stacks s) - 1"
  have il: "i < length (search_stacks s)" using assms(1) by (simp add: i_def)
  have cs: "cs = search_stacks s ! i" using assms(1,3) by (simp add: i_def last_conv_nth)
  obtain s' where s': "scan_deps (cp_depends ops (cps s ! ci) @ cp_rdepends ops (cps s ! ci)) cs i s
        = Inr (True, s')"
    "search_stacks s' = (search_stacks s)[i := search_stacks s ! i @ [x]]"
    "current_atom s' = Some x"
    using scan_deps_push [OF assms(7), of cs i] by blast
  have it: "iterate_step ops t s =
       (case scan_deps (cp_depends ops (cps s ! ci) @ cp_rdepends ops (cps s ! ci)) cs i s of
          Inl (e, s') \<Rightarrow> Raise e (Some cs) s'
        | Inr (missing_atoms, s') \<Rightarrow>
            if missing_atoms then missing_case ops (last cs) (Some cs) i s'
            else (case pop_stack i s' of
                    Inl (e, s'') \<Rightarrow> Raise e (Some cs) s''
                  | Inr s'' \<Rightarrow> end_of_pass (Some cs) s''))"
    using assms(1,2,4,5,6) cs by (intro iterate_step_tracked [where rs = rs]) (simp_all add: i_def)
  have top: "search_stacks s' ! i = cs @ [x]" using s'(2) il cs by simp
  have "missing_case ops (last cs) (Some cs) i s' =
      Yield (AndRestriction x (last cs)) (Some cs) (s'\<lparr>current_atom := Some x\<rparr>)"
    using top assms(8) by (simp add: missing_case_def Let_def)
  then have "iterate_step ops t s =
      Yield (AndRestriction x (last cs)) (Some cs) (s'\<lparr>current_atom := Some x\<rparr>)"
    using it s'(1) by simp
  then show ?thesis using s'(2) cs by (simp add: i_def)
qed

lemma cycle_top_lemma:
  assumes "search_stacks s \<noteq> []"
    and "current_stack s = Some (length (search_stacks s) - 1)"
    and "cs = last (search_stacks s)"
    and "atoms s (last cs) = None"
    and "last cs \<in> set (butlast cs)"
    and "\<not> list_ex blocks (butlast cs)"
  shows "iterate_step ops t s =
           Yield (AndRestriction (last cs) (last cs)) t (s\<lparr>current_atom := Some (last cs)\<rparr>)"
proof -
  define i where "i = length (search_stacks s) - 1"
  have cs: "cs = search_stacks s ! i" using assms(1,3) by (simp add: i_def last_conv_nth)
  have ne: "cs \<noteq> []" using assms(5) by auto
  have "\<not> blocks (last cs)" using assms(5,6) by (auto simp: list_ex_iff)
  moreover have "set cs = insert (last cs) (set (butlast cs))"
    using ne by (metis append_butlast_last_id list.simps(15) rotate1.simps(2) set_rotate1)
  ultimately have nb: "\<not> list_ex blocks cs" using assms(6) by (auto simp: list_ex_iff)
  have "iterate_step ops t s = missing_case ops (last cs) t i s"
    using assms(1,2,4) cs ne nb by (intro iterate_step_missing) (simp_all add: i_def)
  moreover have "missing_case ops (last cs) t i s =
      Yield (AndRestriction (last cs) (last cs)) t (s\<lparr>current_atom := Some (last cs)\<rparr>)"
    using assms(5) cs by (simp add: missing_case_def Let_def)
  ultimately show ?thesis by simp
qed

text \<open>
  Claim C8. When the cycle check of line 87 finds the atom on top of the current stack,
  which has no entry, below in that stack, the pass yields the restriction that asks for
  that atom with dependency and runtime-dependency lists that do not contain the atom
  that was on top when the pass began, and nothing is pushed or popped once the atom is
  on top. The pass reaches the check in two ways, for a current stack with no blocker
  below its top. Either the top atom itself has no entry: the restriction is for it and
  excludes it, and the search stacks are those before the pass. Or the top atom has an
  entry and does not block, and the first dependency of its current candidate without
  an entry occurs in the stack: that dependency is pushed, the restriction is for it and
  excludes the atom that required it, and the push is the only change of the search stacks.
\<close>

theorem cycle_yields_constraint:
  assumes "search_stacks s \<noteq> []"
    and "current_stack s = Some (length (search_stacks s) - 1)"
    and "cs = last (search_stacks s)"
    and "\<not> list_ex blocks (butlast cs)"
  shows "(atoms s (last cs) = None \<longrightarrow> last cs \<in> set (butlast cs) \<longrightarrow>
            iterate_step ops t s =
              Yield (AndRestriction (last cs) (last cs)) t (s\<lparr>current_atom := Some (last cs)\<rparr>) \<and>
            search_stacks (outcome_state (iterate_step ops t s)) = search_stacks s) \<and>
         (cs \<noteq> [] \<longrightarrow> \<not> blocks (last cs) \<longrightarrow> atoms s (last cs) = Some (ci, rs) \<longrightarrow>
          find (\<lambda>d. atoms s d = None)
            (cp_depends ops (cps s ! ci) @ cp_rdepends ops (cps s ! ci)) = Some x \<longrightarrow>
          x \<in> set cs \<longrightarrow>
            outcome_yield (iterate_step ops t s) = Some (AndRestriction x (last cs)) \<and>
            search_stacks (outcome_state (iterate_step ops t s)) =
              (search_stacks s)[length (search_stacks s) - 1 := cs @ [x]] \<and>
            current_atom (outcome_state (iterate_step ops t s)) = Some x)"
proof (intro conjI impI)
  assume a: "atoms s (last cs) = None" "last cs \<in> set (butlast cs)"
  show "iterate_step ops t s =
      Yield (AndRestriction (last cs) (last cs)) t (s\<lparr>current_atom := Some (last cs)\<rparr>)"
    using assms(1-3) a assms(4) by (rule cycle_top_lemma)
  then show "search_stacks (outcome_state (iterate_step ops t s)) = search_stacks s" by simp
next
  assume b: "cs \<noteq> []" "\<not> blocks (last cs)" "atoms s (last cs) = Some (ci, rs)"
    "find (\<lambda>d. atoms s d = None)
       (cp_depends ops (cps s ! ci) @ cp_rdepends ops (cps s ! ci)) = Some x"
    "x \<in> set cs"
  have "set cs = insert (last cs) (set (butlast cs))"
    using b(1) by (metis append_butlast_last_id list.simps(15) rotate1.simps(2) set_rotate1)
  then have nb: "\<not> list_ex blocks cs" using assms(4) b(2) by (auto simp: list_ex_iff)
  have c: "outcome_yield (iterate_step ops t s) = Some (AndRestriction x (last cs)) \<and>
         search_stacks (outcome_state (iterate_step ops t s)) =
           (search_stacks s)[length (search_stacks s) - 1 := cs @ [x]] \<and>
         current_atom (outcome_state (iterate_step ops t s)) = Some x"
    using assms(1-3) b(1) nb b(3-5) by (rule cycle_pushed_lemma)
  show "outcome_yield (iterate_step ops t s) = Some (AndRestriction x (last cs))"
    using c by simp
  show "search_stacks (outcome_state (iterate_step ops t s)) =
           (search_stacks s)[length (search_stacks s) - 1 := cs @ [x]]"
    using c by simp
  show "current_atom (outcome_state (iterate_step ops t s)) = Some x"
    using c by simp
qed

text \<open>
  The pass from the stack \<open>atom_y\<close>, \<open>atom_r\<close> pushes \<open>atom_y\<close> and asks for it
  without \<open>atom_r\<close>; the pass from the stack it leaves asks for \<open>atom_y\<close> without
  \<open>atom_y\<close> and changes no stack.
\<close>

theorem cycle_yields_constraint_witness:
  "outcome_yield (iterate_step simple_ops None s_cycle_push) = Some (AndRestriction atom_y atom_r) \<and>
   search_stacks (outcome_state (iterate_step simple_ops None s_cycle_push)) =
     [[], [atom_y, atom_r, atom_y]] \<and>
   atoms s_cycle atom_y = None \<and>
   iterate_step simple_ops None s_cycle =
     Yield (AndRestriction atom_y atom_y) None (s_cycle\<lparr>current_atom := Some atom_y\<rparr>) \<and>
   search_stacks (outcome_state (iterate_step simple_ops None s_cycle)) =
     [[], [atom_y, atom_r, atom_y]]"
proof -
  have p1: "search_stacks s_cycle_push \<noteq> []" by (simp add: s_cycle_push_def)
  have p2: "current_stack s_cycle_push = Some (length (search_stacks s_cycle_push) - 1)"
    by (simp add: s_cycle_push_def)
  have p3: "[atom_y, atom_r] = last (search_stacks s_cycle_push)" by (simp add: s_cycle_push_def)
  have p4: "\<not> list_ex blocks (butlast [atom_y, atom_r])" by (simp add: atom_y_def)
  have p5: "[atom_y, atom_r] \<noteq> []" by simp
  have p6: "\<not> blocks (last [atom_y, atom_r])" by (simp add: atom_r_def)
  have p7: "atoms s_cycle_push (last [atom_y, atom_r]) = Some (0, [[atom_y, atom_r]])"
    by (simp add: s_cycle_push_def)
  have p8: "find (\<lambda>d. atoms s_cycle_push d = None)
       (cp_depends simple_ops (cps s_cycle_push ! 0) @ cp_rdepends simple_ops (cps s_cycle_push ! 0))
       = Some atom_y"
    by (simp add: s_cycle_push_def simple_ops_def atom_y_def atom_r_def)
  have p9: "atom_y \<in> set [atom_y, atom_r]" by simp
  have h1: "search_stacks s_cycle \<noteq> []" by (simp add: s_cycle_def)
  have h2: "current_stack s_cycle = Some (length (search_stacks s_cycle) - 1)"
    by (simp add: s_cycle_def)
  have h3: "[atom_y, atom_r, atom_y] = last (search_stacks s_cycle)" by (simp add: s_cycle_def)
  have h4: "atoms s_cycle (last [atom_y, atom_r, atom_y]) = None"
    by (simp add: s_cycle_def atom_y_def atom_r_def)
  have h5: "last [atom_y, atom_r, atom_y] \<in> set (butlast [atom_y, atom_r, atom_y])" by simp
  have h6: "\<not> list_ex blocks (butlast [atom_y, atom_r, atom_y])"
    by (simp add: atom_y_def atom_r_def)
  have st: "search_stacks s_cycle = [[], [atom_y, atom_r, atom_y]]"
    "search_stacks s_cycle_push = [[], [atom_y, atom_r]]"
    by (simp_all add: s_cycle_def s_cycle_push_def)
  show ?thesis
    using cycle_yields_constraint [OF p1 p2 p3 p4, of simple_ops None 0 "[[atom_y, atom_r]]" atom_y]
      cycle_yields_constraint [OF h1 h2 h3 h6, of simple_ops None]
      p5 p6 p7 p8 p9 h4 h5 st
    by simp
qed

subsection \<open>The unsatisfiability protocol\<close>

lemma atoms_deref_subset:
  "atoms (final (deref_stack_for_atom ops a st s)) x \<noteq> None \<Longrightarrow> atoms s x \<noteq> None"
proof (cases "atoms s a")
  case None
  assume "atoms (final (deref_stack_for_atom ops a st s)) x \<noteq> None"
  then show ?thesis using None by (simp add: deref_cases del: not_None_eq)
next
  case (Some e)
  assume h: "atoms (final (deref_stack_for_atom ops a st s)) x \<noteq> None"
  obtain c refs where e: "e = (c, refs)" by (cases e)
  show ?thesis
  proof (cases "filter (\<lambda>x. take (length st) x \<noteq> st) refs = []")
    case True
    then show ?thesis using h Some e
      by (cases "x = a") (simp_all add: deref_cases(3) del: not_None_eq)
  next
    case False
    then show ?thesis using h Some e
      by (cases "x = a") (simp_all add: deref_cases(2) del: not_None_eq)
  qed
qed

lemma deref_total:
  "atoms s a \<noteq> None \<Longrightarrow> \<exists>s'. deref_stack_for_atom ops a st s = Inr s' \<and> search_stacks s' = search_stacks s"
proof -
  assume "atoms s a \<noteq> None"
  then obtain c refs where s: "atoms s a = Some (c, refs)" by auto
  show ?thesis
    by (cases "filter (\<lambda>x. take (length st) x \<noteq> st) refs = []")
       (simp_all add: deref_cases(2,3) [OF s])
qed

lemma deref_released_total:
  "\<exists>s'. deref_released ops xs t s = Inr s' \<and> search_stacks s' = search_stacks s \<and>
        (\<forall>x. atoms s' x \<noteq> None \<longrightarrow> atoms s x \<noteq> None)"
proof (induction xs arbitrary: s)
  case Nil
  then show ?case by simp
next
  case (Cons x xs)
  show ?case
  proof (cases "atoms s x = None")
    case True
    then show ?thesis using Cons.IH [of s] by simp
  next
    case False
    obtain s1 where s1: "deref_stack_for_atom ops x t s = Inr s1" "search_stacks s1 = search_stacks s"
      using deref_total [OF False] by blast
    have sub: "\<And>y. atoms s1 y \<noteq> None \<Longrightarrow> atoms s y \<noteq> None"
      using atoms_deref_subset [of ops x t s] s1(1) by simp
    obtain s' where s': "deref_released ops xs t s1 = Inr s'" "search_stacks s' = search_stacks s1"
      "\<forall>y. atoms s' y \<noteq> None \<longrightarrow> atoms s1 y \<noteq> None"
      using Cons.IH [of s1] by blast
    have "deref_released ops (x # xs) t s = Inr s'"
      using False s1(1) s'(1) by (simp del: not_None_eq)
    moreover have "\<forall>y. atoms s' y \<noteq> None \<longrightarrow> atoms s y \<noteq> None"
      using s'(3) sub by blast
    ultimately show ?thesis using s'(2) s1(2) by (simp del: not_None_eq)
  qed
qed

lemma complete_mono:
  "(\<forall>x. atoms s' x \<noteq> None \<longrightarrow> atoms s x \<noteq> None) \<Longrightarrow>
   choice_point_is_complete ops s' c \<Longrightarrow> choice_point_is_complete ops s c"
  by (simp add: choice_point_is_complete_def list_all_iff del: not_None_eq)

lemma reexplore_lemma:
  assumes "2 \<le> length stack"
    and "atoms s (stack ! (length stack - 2)) = Some (ci, rs)"
    and "cp_reduce_atoms ops (cps s ! ci) (last stack) = (Some rel, c')"
    and "choice_point_is_complete ops s (cps s ! ci)"
    and "cp_nonzero ops c'"
    and "\<not> choice_point_is_complete ops s c'"
  shows "\<exists>s'. unsat_step ops stack s = Inr (False, s') \<and>
              search_stacks s' = search_stacks s @ [butlast stack]"
proof -
  define s1 where "s1 = s\<lparr>cps := (cps s)[ci := c']\<rparr>"
  have rp: "reduce_parent ops s (cps s ! ci) (last stack) = (True, fst rel, c')"
    using assms(3,4) by (simp add: reduce_parent_def)
  obtain s2 where s2: "deref_released ops (fst rel) (butlast stack) s1 = Inr s2"
    "search_stacks s2 = search_stacks s1" "\<forall>x. atoms s2 x \<noteq> None \<longrightarrow> atoms s1 x \<noteq> None"
    using deref_released_total [of ops "fst rel" "butlast stack" s1] by blast
  have "\<not> choice_point_is_complete ops s1 c'"
    using assms(6) by (simp add: s1_def choice_point_is_complete_def)
  then have nc: "\<not> choice_point_is_complete ops s2 c'"
    using complete_mono [OF s2(3)] by blast
  have "unsat_step ops stack s = Inr (after_release ops c' True (butlast stack) s2)"
    using assms(1,2) rp s2(1) by (simp add: unsat_step_def s1_def)
  moreover have "after_release ops c' True (butlast stack) s2 =
      (False, s2\<lparr>search_stacks := search_stacks s2 @ [butlast stack]\<rparr>)"
    using assms(5) nc by (simp add: after_release_def)
  ultimately show ?thesis using s2(2) by (simp add: s1_def)
qed

text \<open>
  Claim C7. While the protocol works on a referencing stack: if the parent's choice
  point was complete before \<^verbatim>\<open>reduce_atoms\<close>, and after it the choice point has a
  current candidate and is not complete, then the stack without its top is appended to the
  search stacks. (Completeness after the reduction is stated on the entries that exist
  when the reduction returns; the dereferences that follow only delete entries.)
\<close>

theorem reexplore_when_incomplete:
  assumes "2 \<le> length stack"
    and "atoms s (stack ! (length stack - 2)) = Some (ci, rs)"
    and "cp_reduce_atoms ops (cps s ! ci) (last stack) = (Some rel, c')"
    and "choice_point_is_complete ops s (cps s ! ci)"
    and "cp_nonzero ops c'"
    and "\<not> choice_point_is_complete ops s c'"
  shows "\<exists>s'. unsat_step ops stack s = Inr (False, s') \<and>
              search_stacks s' = search_stacks s @ [butlast stack]"
  using assms by (rule reexplore_lemma)

text \<open>The first candidate of \<open>atom_r\<close> is removed; the second needs \<open>atom_z\<close>.\<close>

theorem reexplore_when_incomplete_witness:
  "atoms s_backtrack atom_r = Some (0, [[atom_r]]) \<and>
   cp_reduce_atoms simple_ops (cps s_backtrack ! 0) atom_y =
     (Some ([atom_y], []), (atom_r, [(''dev/r-2'', [atom_z], [])])) \<and>
   choice_point_is_complete simple_ops s_backtrack (cps s_backtrack ! 0) \<and>
   \<not> choice_point_is_complete simple_ops s_backtrack (atom_r, [(''dev/r-2'', [atom_z], [])]) \<and>
   search_stacks (step_state (unsat_step simple_ops [atom_r, atom_y] s_backtrack)) =
     [[], [atom_r, atom_y], [atom_r]]"
proof -
  have h1: "2 \<le> length [atom_r, atom_y]" by simp
  have h2: "atoms s_backtrack ([atom_r, atom_y] ! (length [atom_r, atom_y] - 2)) = Some (0, [[atom_r]])"
    by (simp add: s_backtrack_def atom_r_def atom_y_def)
  have h3: "cp_reduce_atoms simple_ops (cps s_backtrack ! 0) (last [atom_r, atom_y]) =
     (Some ([atom_y], []), (atom_r, [(''dev/r-2'', [atom_z], [])]))"
    by (simp add: s_backtrack_def simple_ops_def pkg_requires_def atom_y_def atom_z_def)
  have h4: "choice_point_is_complete simple_ops s_backtrack (cps s_backtrack ! 0)"
    by (simp add: s_backtrack_def simple_ops_def choice_point_is_complete_def)
  have h5: "cp_nonzero simple_ops (atom_r, [(''dev/r-2'', [atom_z], [])])"
    by (simp add: simple_ops_def)
  have h6: "\<not> choice_point_is_complete simple_ops s_backtrack (atom_r, [(''dev/r-2'', [atom_z], [])])"
    by (simp add: s_backtrack_def simple_ops_def choice_point_is_complete_def
        atom_r_def atom_y_def atom_z_def)
  have "search_stacks s_backtrack = [[], [atom_r, atom_y]]" by (simp add: s_backtrack_def)
  then show ?thesis
    using reexplore_when_incomplete [OF h1 h2 h3 h4 h5 h6] h2 h3 h4 h6 by auto
qed

text \<open>
  The protocol never raises NoSolution: a referencing stack shorter than two, the empty
  one included, ends it with IndexError at line 164.
\<close>

lemma unsat_step_raises:
  "unsat_step ops stack s = Inl (e, s') \<Longrightarrow> e = IndexError \<or> e = KeyError"
proof (cases "length stack < 2")
  case True
  assume "unsat_step ops stack s = Inl (e, s')"
  then show ?thesis using True by (simp add: unsat_step_def)
next
  case False
  assume u: "unsat_step ops stack s = Inl (e, s')"
  show ?thesis
  proof (cases "atoms s (stack ! (length stack - 2))")
    case None
    then show ?thesis using False u by (simp add: unsat_step_def)
  next
    case (Some x)
    obtain ci rs where x: "x = (ci, rs)" by (cases x)
    obtain wc rel c' where rp: "reduce_parent ops s (cps s ! ci) (last stack) = (wc, rel, c')"
      by (cases "reduce_parent ops s (cps s ! ci) (last stack)") auto
    obtain s2 where "deref_released ops rel (butlast stack) (s\<lparr>cps := (cps s)[ci := c']\<rparr>) = Inr s2"
      using deref_released_total [of ops rel "butlast stack" "s\<lparr>cps := (cps s)[ci := c']\<rparr>"] by blast
    then have "unsat_step ops stack s = Inr (after_release ops c' wc (butlast stack) s2)"
      using False Some x rp by (simp add: unsat_step_def)
    then show ?thesis using u by simp
  qed
qed

lemma unsat_step_short: "length stack < 2 \<Longrightarrow> unsat_step ops stack s = Inl (IndexError, s)"
  by (simp add: unsat_step_def)

lemma unsat_loop_raises:
  "unsat_loop ops a msg q bail s = Inl (e, s') \<Longrightarrow> e = IndexError \<or> e = KeyError"
proof (induction ops a msg q bail s rule: unsat_loop.induct)
  case (1 ops a msg bail s)
  then show ?case by simp
next
  case (2 ops a msg stack q bail s)
  show ?case
  proof (cases "unsat_step ops stack s")
    case (Inl x)
    then have "unsat_step ops stack s = Inl (e, s')" using "2.prems" by simp
    then show ?thesis by (rule unsat_step_raises)
  next
    case (Inr r)
    then show ?thesis using "2.IH" [OF Inr] "2.prems" by simp
  qed
qed

lemma unsat_loop_bail:
  "unsat_loop ops a msg q bail s = Inr (b, s') \<Longrightarrow> b = bail"
proof (induction ops a msg q bail s rule: unsat_loop.induct)
  case (1 ops a msg bail s)
  then show ?case by simp
next
  case (2 ops a msg stack q bail s)
  show ?case
  proof (cases "unsat_step ops stack s")
    case (Inl x)
    then show ?thesis using "2.prems" by simp
  next
    case (Inr r)
    have "stack \<noteq> []"
      using Inr unsat_step_short [of stack ops s] by (cases stack) auto
    then show ?thesis using "2.IH" [OF Inr] "2.prems" Inr by simp
  qed
qed

lemma unsatisfiable_atom_never_no_solution:
  "unsatisfiable_atom ops a msg p s = Inl (e, s') \<Longrightarrow>
     e = AssertionError \<or> e = IndexError \<or> e = KeyError"
proof (cases "current_atom s = Some a")
  case False
  assume "unsatisfiable_atom ops a msg p s = Inl (e, s')"
  then show ?thesis using False by (simp add: unsatisfiable_cases)
next
  case True
  assume u: "unsatisfiable_atom ops a msg p s = Inl (e, s')"
  define s1 where "s1 = (if p then s\<lparr>false_atoms := insert a (false_atoms s)\<rparr> else s)"
  show ?thesis
  proof (cases "atoms s a")
    case None
    then show ?thesis using True u by (simp add: unsatisfiable_cases(2))
  next
    case (Some x)
    obtain c refs where x: "x = (c, refs)" by (cases x)
    have ua: "unsatisfiable_atom ops a msg p s =
       (case unsat_loop ops a msg refs None s1 of
          Inl e \<Rightarrow> Inl e
        | Inr (bail, s2) \<Rightarrow>
            (case grab_next_stack s2 of
               Inl e \<Rightarrow> Inl e
             | Inr s3 \<Rightarrow> (case bail of Some b \<Rightarrow> Inl (b, s3) | None \<Rightarrow> Inr s3)))"
      using True Some x by (simp add: unsatisfiable_cases(3) s1_def)
    show ?thesis
    proof (cases "unsat_loop ops a msg refs None s1")
      case (Inl y)
      then have "unsat_loop ops a msg refs None s1 = Inl (e, s')" using ua u by simp
      then show ?thesis using unsat_loop_raises by blast
    next
      case (Inr r)
      obtain bail s2 where r: "r = (bail, s2)" by (cases r)
      have b: "bail = None" using Inr r unsat_loop_bail by blast
      show ?thesis
      proof (cases "search_stacks s2 = []")
        case True
        then show ?thesis using ua u Inr r b by (simp add: grab_next_stack_def)
      next
        case False
        then show ?thesis using ua u Inr r b by (simp add: grab_next_stack_def)
      qed
    qed
  qed
qed

lemma root_reference_never_no_solution:
  assumes "current_atom s = Some a" "atoms s a = Some (c, [] # refs)"
  shows "unsatisfiable_atom ops a msg p s =
    Inl (IndexError, if p then s\<lparr>false_atoms := insert a (false_atoms s)\<rparr> else s)"
  using assms by (simp add: unsatisfiable_cases(3) unsat_step_short)

lemma s_root_ref_eq:
  "s_root_ref = \<lparr>search_stacks = [[], [atom_y]], current_stack = Some 1,
     current_atom = Some atom_y, false_atoms = {},
     atoms = [atom_y \<mapsto> (0, [[]])], pkg_atoms = [''dev/y'' \<mapsto> [0]],
     cps = [(atom_y, [pkg_y1])]\<rparr>"
proof -
  have a: "final (satisfy_atom simple_ops atom_y [pkg_y1] s_yield_y) =
     \<lparr>search_stacks = [[], [atom_y]], current_stack = Some 1,
      current_atom = Some atom_y, false_atoms = {},
      atoms = [atom_y \<mapsto> (0, [[atom_y]])], pkg_atoms = [''dev/y'' \<mapsto> [0]],
      cps = [(atom_y, [pkg_y1])]\<rparr>"
    by (simp add: s_yield_y_eq satisfy_atom_def install_choice_point_def ref_stack_for_atom_def
        simple_ops_def atom_y_def)
  have b: "final (ref_stack_for_atom atom_y []
         (final (satisfy_atom simple_ops atom_y [pkg_y1] s_yield_y))) =
     \<lparr>search_stacks = [[], [atom_y]], current_stack = Some 1,
      current_atom = Some atom_y, false_atoms = {},
      atoms = [atom_y \<mapsto> (0, [[atom_y], []])], pkg_atoms = [''dev/y'' \<mapsto> [0]],
      cps = [(atom_y, [pkg_y1])]\<rparr>"
    unfolding a by (simp add: ref_stack_for_atom_def)
  show ?thesis
    unfolding s_root_ref_def b by (simp add: deref_stack_for_atom_def)
qed

text \<open>
  Claim C1. The atom being processed has an empty referencing stack: NoSolution should
  be recorded and raised after the cleanup. The call raises IndexError from line 164,
  with the atom added to \<open>false_atoms\<close> and nothing else done.
\<close>

theorem root_reference_raises_index_error:
  "atoms s_root_ref atom_y = Some (0, [[]]) \<and> current_atom s_root_ref = Some atom_y \<and>
   unsatisfiable_atom simple_ops atom_y ''no candidates'' True s_root_ref =
     Inl (IndexError, s_root_ref\<lparr>false_atoms := {atom_y}\<rparr>)"
  by (simp add: s_root_ref_eq unsatisfiable_atom_def Let_def unsat_step_def)

end
